theory Spec2Isabelle
  imports Main "HOL-Library.Multiset"
begin

section \<open>Strings and arrays of the host language\<close>

text \<open>
  \<open>String.prototype.split\<close> with a string separator: the text is cut at every
  occurrence of the separator, scanning from the left; an empty separator cuts the
  text into its single characters (and the empty text into no piece at all).
\<close>

function split_go :: "string \<Rightarrow> string \<Rightarrow> string \<Rightarrow> string list" where
  "split_go sep acc [] = [rev acc]"
| "split_go sep acc (c # cs) =
     (if sep \<noteq> [] \<and> take (length sep) (c # cs) = sep
      then rev acc # split_go sep [] (drop (length sep) (c # cs))
      else split_go sep (c # acc) cs)"
  by pat_completeness auto
termination
  by (relation "measure (\<lambda>(sep, acc, s). length s)") auto

definition split :: "string \<Rightarrow> string \<Rightarrow> string list" where
  "split sep s = (if sep = [] then map (\<lambda>c. [c]) s else split_go sep [] s)"

text \<open>\<open>Array.prototype.join\<close> on an array of strings.\<close>

fun join :: "string \<Rightarrow> string list \<Rightarrow> string" where
  "join sep [] = []"
| "join sep [x] = x"
| "join sep (x # y # ys) = x @ sep @ join sep (y # ys)"

section \<open>The \<open>seenCount\<close> object of \<open>computeDisplayPaths\<close>\<close>

text \<open>
  \<open>seenCount\<close> is created by the object literal \<open>{}\<close>, so a property read that
  finds no own property goes on to \<open>Object.prototype\<close>. The values a read can give
  are: \<open>undefined\<close>, a number (a count or \<open>NaN\<close>), or a function or object
  inherited from the prototype.
\<close>

datatype jsval = Undefined | Num nat | NaN | Inherited

text \<open>The property names of \<open>Object.prototype\<close> (ECMAScript, with Annex B).\<close>

definition objectPrototypeKeys :: "string list" where
  "objectPrototypeKeys =
     [''constructor'', ''__defineGetter__'', ''__defineSetter__'', ''hasOwnProperty'',
      ''__lookupGetter__'', ''__lookupSetter__'', ''isPrototypeOf'',
      ''propertyIsEnumerable'', ''toString'', ''valueOf'', ''__proto__'',
      ''toLocaleString'']"

type_synonym seen = "string \<rightharpoonup> jsval"

text \<open>The read \<open>seenCount[path]\<close>.\<close>

definition getSeen :: "seen \<Rightarrow> string \<Rightarrow> jsval" where
  "getSeen m k =
     (case m k of
        Some v \<Rightarrow> v
      | None \<Rightarrow> if k \<in> set objectPrototypeKeys then Inherited else Undefined)"

text \<open>
  The write \<open>seenCount[path] = v\<close> of a number: it creates or updates an own
  property, except for \<open>__proto__\<close>, whose inherited setter ignores a value that is
  neither an object nor \<open>null\<close>.
\<close>

definition setSeen :: "seen \<Rightarrow> string \<Rightarrow> jsval \<Rightarrow> seen" where
  "setSeen m k v = (if k = ''__proto__'' then m else m(k \<mapsto> v))"

text \<open>\<open>v + 1\<close> after \<open>ToNumber\<close>: only a count stays a count.\<close>

fun jsIncr :: "jsval \<Rightarrow> jsval" where
  "jsIncr (Num n) = Num (Suc n)"
| "jsIncr _ = NaN"

text \<open>
  The body of the first \<open>forEach\<close>:
  \<^verbatim>\<open>if (seenCount[path] == null) { seenCount[path] = 1; } else { seenCount[path]++; }\<close>
\<close>

definition bumpSeen :: "seen \<Rightarrow> string \<Rightarrow> seen" where
  "bumpSeen m k =
     (if getSeen m k = Undefined then setSeen m k (Num 1)
      else setSeen m k (jsIncr (getSeen m k)))"

section \<open>\<open>computeDisplayPaths\<close>\<close>

record displayPath =
  separator :: string
  pathParts :: "string list"
  depth :: nat
  isDone :: bool

text \<open>
  The objects of \<open>displayPaths\<close> are shared with \<open>toProcess\<close>, which is a filtered
  copy of the array holding the same objects. The model keeps the objects in the list
  \<open>displayPaths\<close> and lets \<open>toProcess\<close> hold their positions there.
\<close>

record loopState =
  displayPaths :: "displayPath list"
  toProcess :: "nat list"
  seenCount :: seen
  currentDepth :: nat

text \<open>\<open>pathParts.slice(0, depth).join('/')\<close>\<close>

definition keyOf :: "displayPath \<Rightarrow> string" where
  "keyOf dp = join ''/'' (take (depth dp) (pathParts dp))"

text \<open>The first \<open>forEach\<close>: count how often each key is seen.\<close>

definition countSeen :: "displayPath list \<Rightarrow> nat list \<Rightarrow> seen \<Rightarrow> seen" where
  "countSeen dps tp m = fold (\<lambda>i m. bumpSeen m (keyOf (dps ! i))) tp m"

text \<open>The body of the second \<open>forEach\<close>, on the object at position \<open>i\<close>.\<close>

definition markOne :: "seen \<Rightarrow> nat \<Rightarrow> displayPath list \<Rightarrow> displayPath list" where
  "markOne m i dps =
     (let dp = dps ! i; path = keyOf dp in
      if getSeen m path = Num 1 \<or> depth dp = length (pathParts dp)
      then dps[i := dp\<lparr>isDone := True\<rparr>]
      else dps[i := dp\<lparr>depth := depth dp + 1\<rparr>])"

definition markAll :: "seen \<Rightarrow> nat list \<Rightarrow> displayPath list \<Rightarrow> displayPath list" where
  "markAll m tp dps = fold (markOne m) tp dps"

text \<open>One iteration of the \<open>while\<close> loop.\<close>

definition loopBody :: "loopState \<Rightarrow> loopState" where
  "loopBody s =
     (let seen1 = countSeen (displayPaths s) (toProcess s) (seenCount s);
          dps1 = markAll seen1 (toProcess s) (displayPaths s);
          tp1 = filter (\<lambda>i. \<not> isDone (dps1 ! i)) (toProcess s)
      in \<lparr>displayPaths = dps1, toProcess = tp1, seenCount = Map.empty,
          currentDepth = currentDepth s + 1\<rparr>)"

function loop :: "int \<Rightarrow> loopState \<Rightarrow> loopState" where
  "loop maxDepth s =
     (if int (currentDepth s) < maxDepth \<and> toProcess s \<noteq> []
      then loop maxDepth (loopBody s) else s)"
  by pat_completeness auto
termination
  by (relation "measure (\<lambda>(maxDepth, s). nat (maxDepth - int (currentDepth s)))")
     (auto simp: loopBody_def Let_def)

text \<open>
  The state before the loop. \<open>nuclideUri.pathSeparatorFor\<close> is not part of the
  sources at hand and is a parameter.
\<close>

definition initPath :: "(string \<Rightarrow> string) \<Rightarrow> string \<Rightarrow> displayPath" where
  "initPath pathSeparatorFor path =
     (let sep = pathSeparatorFor path in
      \<lparr>separator = sep, pathParts = rev (split sep path), depth = 1, isDone = False\<rparr>)"

definition initState :: "(string \<Rightarrow> string) \<Rightarrow> string list \<Rightarrow> loopState" where
  "initState pathSeparatorFor filePaths =
     \<lparr>displayPaths = map (initPath pathSeparatorFor) filePaths,
      toProcess = [0..<length filePaths],
      seenCount = Map.empty,
      currentDepth = 1\<rparr>"

text \<open>\<open>pathParts.slice(0, depth).reverse().join(separator)\<close>\<close>

definition render_path :: "displayPath \<Rightarrow> string" where
  "render_path dp = join (separator dp) (rev (take (depth dp) (pathParts dp)))"

definition computeDisplayPaths ::
  "(string \<Rightarrow> string) \<Rightarrow> string list \<Rightarrow> int \<Rightarrow> string list" where
  "computeDisplayPaths pathSeparatorFor filePaths maxDepth =
     map render_path (displayPaths (loop maxDepth (initState pathSeparatorFor filePaths)))"

text \<open>The call with \<open>maxDepth\<close> left out takes the default, 5.\<close>

definition computeDisplayPaths_default ::
  "(string \<Rightarrow> string) \<Rightarrow> string list \<Rightarrow> string list" where
  "computeDisplayPaths_default pathSeparatorFor filePaths =
     computeDisplayPaths pathSeparatorFor filePaths 5"

subsection \<open>The loop, round by round\<close>

text \<open>The second \<open>forEach\<close> changes one object: it is marked done or gets one segment more.\<close>

definition markStep :: "seen \<Rightarrow> displayPath \<Rightarrow> displayPath" where
  "markStep m dp =
     (if getSeen m (keyOf dp) = Num 1 \<or> depth dp = length (pathParts dp)
      then dp\<lparr>isDone := True\<rparr> else dp\<lparr>depth := depth dp + 1\<rparr>)"

text \<open>The keys that the first \<open>forEach\<close> of a round counts.\<close>

definition roundKeys :: "loopState \<Rightarrow> string list" where
  "roundKeys s = map (\<lambda>i. keyOf (displayPaths s ! i)) (toProcess s)"

text \<open>
  What the test \<open>seenCount[path] === 1 || depth === pathParts.length\<close> comes to
  for the object at position \<open>i\<close>, once the keys of the round are counted: a key
  that is a property name of \<open>Object.prototype\<close> never has the count 1.
\<close>

definition finalNow :: "loopState \<Rightarrow> nat \<Rightarrow> bool" where
  "finalNow s i \<longleftrightarrow>
     (keyOf (displayPaths s ! i) \<notin> set objectPrototypeKeys \<and>
      count_list (roundKeys s) (keyOf (displayPaths s ! i)) = 1) \<or>
     depth (displayPaths s ! i) = length (pathParts (displayPaths s ! i))"

text \<open>The loop changes neither the separators nor the parts, and no depth is below 1.\<close>

definition fields_kept :: "string list \<Rightarrow> string list list \<Rightarrow> loopState \<Rightarrow> bool" where
  "fields_kept seps parts s \<longleftrightarrow>
     map separator (displayPaths s) = seps \<and> map pathParts (displayPaths s) = parts \<and>
     (\<forall>dp \<in> set (displayPaths s). 1 \<le> depth dp)"

text \<open>
  Between two rounds: the objects still to process are those not done, they all have
  the current depth, and no object is deeper than that.
\<close>

definition wf_state :: "loopState \<Rightarrow> bool" where
  "wf_state s \<longleftrightarrow>
     distinct (toProcess s) \<and>
     (\<forall>i \<in> set (toProcess s). i < length (displayPaths s) \<and>
        depth (displayPaths s ! i) = currentDepth s \<and> \<not> isDone (displayPaths s ! i)) \<and>
     (\<forall>i < length (displayPaths s). i \<notin> set (toProcess s) \<longrightarrow> isDone (displayPaths s ! i)) \<and>
     (\<forall>i < length (displayPaths s). 1 \<le> depth (displayPaths s ! i) \<and>
        depth (displayPaths s ! i) \<le> currentDepth s) \<and>
     seenCount s = Map.empty \<and> 1 \<le> currentDepth s"

text \<open>
  Two positions holding the same path are processed together, and leave the loop
  together when the whole path is used.
\<close>

definition twins :: "nat \<Rightarrow> nat \<Rightarrow> loopState \<Rightarrow> bool" where
  "twins i j s \<longleftrightarrow>
     (i \<in> set (toProcess s) \<and> j \<in> set (toProcess s)) \<or>
     (i \<notin> set (toProcess s) \<and> j \<notin> set (toProcess s) \<and>
      depth (displayPaths s ! i) = length (pathParts (displayPaths s ! i)) \<and>
      depth (displayPaths s ! j) = length (pathParts (displayPaths s ! j)))"

definition twin_inv ::
  "string list \<Rightarrow> string list list \<Rightarrow> int \<Rightarrow> nat \<Rightarrow> nat \<Rightarrow> loopState \<Rightarrow> bool" where
  "twin_inv seps parts m i j s \<longleftrightarrow>
     wf_state s \<and> fields_kept seps parts s \<and> twins i j s \<and> int (currentDepth s) \<le> max 1 m"

text \<open>
  The statement of the shortest suffix. The parts of a path are its segments, last
  segment first, so the suffix of \<open>d\<close> segments is the first \<open>d\<close> parts. It is
  shared when another position of the list has a path with the same suffix of \<open>d\<close>
  segments.
\<close>

definition shared :: "string list list \<Rightarrow> nat \<Rightarrow> nat \<Rightarrow> bool" where
  "shared parts d i \<longleftrightarrow>
     (\<exists>j < length parts. j \<noteq> i \<and> d \<le> length (parts ! j) \<and>
        take d (parts ! j) = take d (parts ! i))"

text \<open>
  The paths on which the keys of the rounds tell the suffixes apart: no path is without
  parts, equal keys of equal depth come from equal suffixes, and no key is a property
  name of \<open>Object.prototype\<close>.
\<close>

definition plain_keys :: "string list list \<Rightarrow> bool" where
  "plain_keys parts \<longleftrightarrow>
     (\<forall>i < length parts. parts ! i \<noteq> []) \<and>
     (\<forall>i < length parts. \<forall>j < length parts. \<forall>d.
        d \<le> length (parts ! i) \<and> d \<le> length (parts ! j) \<and>
        join ''/'' (take d (parts ! i)) = join ''/'' (take d (parts ! j)) \<longrightarrow>
          take d (parts ! i) = take d (parts ! j)) \<and>
     (\<forall>i < length parts. \<forall>d. 1 \<le> d \<and> d \<le> length (parts ! i) \<longrightarrow>
        join ''/'' (take d (parts ! i)) \<notin> set objectPrototypeKeys)"

text \<open>
  Between two rounds, on such paths: every suffix of a path still to process that is
  shorter than the current depth is shared and is not the whole path; the paths that
  share the suffix of the current depth with a path still to process are still to
  process themselves; and a path that is final has the first depth at which its suffix
  is not shared or is the whole path.
\<close>

definition minimal_inv :: "string list list \<Rightarrow> loopState \<Rightarrow> bool" where
  "minimal_inv parts s \<longleftrightarrow>
     (\<forall>i \<in> set (toProcess s). \<forall>d. 1 \<le> d \<and> d < currentDepth s \<longrightarrow>
        shared parts d i \<and> d \<noteq> length (parts ! i)) \<and>
     (\<forall>i \<in> set (toProcess s). \<forall>j < length parts.
        currentDepth s \<le> length (parts ! j) \<and>
        take (currentDepth s) (parts ! j) = take (currentDepth s) (parts ! i) \<longrightarrow>
          j \<in> set (toProcess s)) \<and>
     (\<forall>i < length parts. i \<notin> set (toProcess s) \<longrightarrow>
        (\<not> shared parts (depth (displayPaths s ! i)) i \<or>
         depth (displayPaths s ! i) = length (parts ! i)) \<and>
        (\<forall>d. 1 \<le> d \<and> d < depth (displayPaths s ! i) \<longrightarrow>
           shared parts d i \<and> d \<noteq> length (parts ! i)))"

text \<open>For the paths of a POSIX file system \<open>pathSeparatorFor\<close> gives the slash.\<close>

definition posixSeparatorFor :: "string \<Rightarrow> string" where
  "posixSeparatorFor path = ''/''"

section \<open>\<open>ChangedFilesList\<close>\<close>

definition FILE_CHANGES_INITIAL_PAGE_SIZE :: nat where
  "FILE_CHANGES_INITIAL_PAGE_SIZE = 100"

text \<open>
  The props that \<open>render\<close> reads. \<open>fileStatuses\<close> is a \<open>Map\<close>: its entries in
  iteration order, so \<open>size\<close> is the length of the list and \<open>keys()\<close> its first
  components. The callbacks and flags that \<open>render\<close> only hands on to each
  \<open>ChangedFile\<close> unchanged are left out.
\<close>

record Props =
  checkedFiles :: "string set option"
  fileStatuses :: "(string \<times> nat) list"
  generatedTypes :: "(string \<rightharpoonup> string) option"
  hideEmptyFolders :: bool
  rootPath :: string
  selectedFile :: "string option"
  shouldShowFolderName :: bool

record State =
  isCollapsed :: bool
  visiblePagesCount :: nat

definition initialState :: State where
  "initialState = \<lparr>isCollapsed = False, visiblePagesCount = 1\<rparr>"

text \<open>What \<open>render\<close> passes to one \<open>ChangedFile\<close>.\<close>

record ChangedFile =
  cf_displayPath :: string
  cf_filePath :: string
  cf_fileStatus :: nat
  cf_generatedType :: "string option"
  cf_isChecked :: "bool option"
  cf_isHgPath :: bool
  cf_isSelected :: bool

text \<open>
  The element tree that \<open>render\<close> returns: the class of the root item, the folder
  name when it is shown, the \<open>ChangedFile\<close> children, and the content of the last
  list item, which is the control with its \<open>onClick\<close> handler or \<open>null\<close>.
\<close>

record Rendered =
  collapsed :: bool
  folderName :: "string option"
  changedFiles :: "ChangedFile list"
  showMoreFilesElement :: "(State \<Rightarrow> State) option"

datatype render_error = NullThrows

text \<open>
  \<open>Array.prototype.sort\<close> with a comparator, as a stable insertion sort. The
  comparator is \<open>localeCompare\<close> on base names; both come from outside and are
  parameters.
\<close>

fun insertBy :: "('a \<Rightarrow> 'a \<Rightarrow> int) \<Rightarrow> 'a \<Rightarrow> 'a list \<Rightarrow> 'a list" where
  "insertBy cmp x [] = [x]"
| "insertBy cmp x (y # ys) = (if cmp x y \<le> 0 then x # y # ys else y # insertBy cmp x ys)"

definition sortBy :: "('a \<Rightarrow> 'a \<Rightarrow> int) \<Rightarrow> 'a list \<Rightarrow> 'a list" where
  "sortBy cmp xs = foldr (insertBy cmp) xs []"

text \<open>The handler of the control: it reads the state when it runs.\<close>

definition showMoreOnClick :: "State \<Rightarrow> State" where
  "showMoreOnClick st = st\<lparr>visiblePagesCount := visiblePagesCount st + 1\<rparr>"

text \<open>The callback of \<open>filePaths.map\<close>; \<open>nullthrows\<close> raises on a missing status.\<close>

definition fileChange ::
  "Props \<Rightarrow> bool \<Rightarrow> string \<Rightarrow> string \<Rightarrow> render_error + ChangedFile" where
  "fileChange props isHgRoot filePath displayPath =
     (case map_of (fileStatuses props) filePath of
        None \<Rightarrow> Inl NullThrows
      | Some st \<Rightarrow>
          Inr \<lparr>cf_displayPath = displayPath,
               cf_filePath = filePath,
               cf_fileStatus = st,
               cf_generatedType =
                 (case generatedTypes props of None \<Rightarrow> None | Some g \<Rightarrow> g filePath),
               cf_isChecked =
                 (case checkedFiles props of None \<Rightarrow> None | Some c \<Rightarrow> Some (filePath \<in> c)),
               cf_isHgPath = isHgRoot,
               cf_isSelected = (selectedFile props = Some filePath)\<rparr>)"

fun collect :: "('e + 'a) list \<Rightarrow> 'e + 'a list" where
  "collect [] = Inr []"
| "collect (Inl e # _) = Inl e"
| "collect (Inr x # rest) = (case collect rest of Inl e \<Rightarrow> Inl e | Inr xs \<Rightarrow> Inr (x # xs))"

text \<open>
  \<open>render\<close>. The result \<open>Inr None\<close> is the return value \<open>null\<close>. The parameters are
  the functions that the sources at hand do not hold: \<open>pathSeparatorFor\<close> and
  \<open>basename\<close> of \<open>nuclideUri\<close>, \<open>localeCompare\<close>, and \<open>isHgPath\<close>, which asks the
  repository of the root path.
\<close>

definition render ::
  "(string \<Rightarrow> string) \<Rightarrow> (string \<Rightarrow> string) \<Rightarrow> (string \<Rightarrow> string \<Rightarrow> int) \<Rightarrow> (string \<Rightarrow> bool) \<Rightarrow>
   Props \<Rightarrow> State \<Rightarrow> render_error + Rendered option" where
  "render pathSeparatorFor basename localeCompare isHgPath props st =
     (if length (fileStatuses props) = 0 \<and> hideEmptyFolders props then Inr None
      else
        let filesToShow = FILE_CHANGES_INITIAL_PAGE_SIZE * visiblePagesCount st;
            filePaths = take filesToShow (map fst (fileStatuses props));
            displayPaths = computeDisplayPaths_default pathSeparatorFor filePaths;
            isHgRoot = isHgPath (rootPath props)
        in case collect (map (\<lambda>(filePath, index).
                                 fileChange props isHgRoot filePath (displayPaths ! index))
                             (zip filePaths [0..<length filePaths])) of
             Inl e \<Rightarrow> Inl e
           | Inr changes \<Rightarrow>
               Inr (Some
                 \<lparr>collapsed = isCollapsed st,
                  folderName =
                    (if shouldShowFolderName props then Some (basename (rootPath props))
                     else None),
                  changedFiles =
                    sortBy (\<lambda>change1 change2.
                              localeCompare (basename (cf_filePath change1))
                                            (basename (cf_filePath change2)))
                           changes,
                  showMoreFilesElement =
                    (if length (fileStatuses props) > filesToShow then Some showMoreOnClick
                     else None)\<rparr>))"

section \<open>\<open>RemoteProjectsService.createRemoteConnection\<close>\<close>

record SerializableRemoteConnectionConfiguration =
  host :: string
  path :: string
  displayTitle :: string
  promptReconnectOnFailure :: "bool option"

record OpenConnectionDialogOptions =
  initialServer :: string
  initialCwd :: string

text \<open>The calls that leave the service, in the order they are made.\<close>

datatype call =
    Reconnect string string string bool
  | OpenConnectionDialog OpenConnectionDialogOptions

text \<open>
  A promise settles as rejected with a reason (\<open>Inl\<close>) or as resolved with a value;
  the value \<open>None\<close> is \<open>null\<close>. \<open>RemoteConnection.reconnect\<close> and
  \<open>openConnectionDialog\<close> are imported from elsewhere and are parameters. An
  \<open>await\<close> on a rejected promise rejects the whole call.
\<close>

definition createRemoteConnection ::
  "(string \<Rightarrow> string \<Rightarrow> string \<Rightarrow> bool \<Rightarrow> string + 'c option) \<Rightarrow>
   (OpenConnectionDialogOptions \<Rightarrow> string + 'c option) \<Rightarrow>
   SerializableRemoteConnectionConfiguration \<Rightarrow> (string + 'c option) \<times> call list" where
  "createRemoteConnection reconnect openConnectionDialog remoteProjectConfig =
     (let prompt = (case promptReconnectOnFailure remoteProjectConfig of
                      None \<Rightarrow> True | Some b \<Rightarrow> b);
          h = host remoteProjectConfig;
          p = path remoteProjectConfig;
          t = displayTitle remoteProjectConfig
      in case reconnect h p t prompt of
           Inl e \<Rightarrow> (Inl e, [Reconnect h p t prompt])
         | Inr (Some connection) \<Rightarrow> (Inr (Some connection), [Reconnect h p t prompt])
         | Inr None \<Rightarrow>
             if prompt = False then (Inr None, [Reconnect h p t prompt])
             else
               let options = \<lparr>initialServer = h, initialCwd = p\<rparr>
               in (openConnectionDialog options,
                   [Reconnect h p t prompt, OpenConnectionDialog options]))"

section \<open>\<open>serverStatusUpdatesToBusyMessages\<close>\<close>

record ServerStatusUpdate =
  pathToRoot :: string
  status :: string

text \<open>
  The busy-signal service: \<open>reportBusy\<close> shows a message and returns a disposable,
  and disposing it takes the message away. The service holds the messages that are
  shown, each with the number of its disposable.
\<close>

record BusySignalService =
  nextId :: nat
  shown :: "(nat \<times> string) list"

definition reportBusy :: "BusySignalService \<Rightarrow> string \<Rightarrow> nat \<times> BusySignalService" where
  "reportBusy b title =
     (nextId b, \<lparr>nextId = nextId b + 1, shown = shown b @ [(nextId b, title)]\<rparr>)"

definition dispose :: "BusySignalService \<Rightarrow> nat \<Rightarrow> BusySignalService" where
  "dispose b d = b\<lparr>shown := filter (\<lambda>(i, _). i \<noteq> d) (shown b)\<rparr>"

text \<open>
  The subscription groups the updates by \<open>pathToRoot\<close> and switches, within each
  group, to a new inner observable on every update: the inner subscription of the
  update before is unsubscribed, which runs its teardown \<open>disposable.dispose()\<close>,
  and then the new one is subscribed, which for \<open>init\<close> and \<open>busy\<close> calls
  \<open>reportBusy\<close> and for every other status is the empty observable. The state is:
  for each root the disposable held by its live inner subscription, and the service.
\<close>

record Subscription =
  inner :: "string \<rightharpoonup> nat"
  busySignal :: BusySignalService

definition busyTitle :: "(string \<Rightarrow> string) \<Rightarrow> ServerStatusUpdate \<Rightarrow> string" where
  "busyTitle nuclideUriToDisplayString nextStatus =
     (let readablePath = nuclideUriToDisplayString (pathToRoot nextStatus);
          readableStatus = (if status nextStatus = ''init'' then ''initializing'' else ''busy'')
      in ''Flow server is '' @ readableStatus @ '' ('' @ readablePath @ '')'')"

definition unsubscribeInner :: "Subscription \<Rightarrow> string \<Rightarrow> Subscription" where
  "unsubscribeInner s root =
     (case inner s root of
        None \<Rightarrow> s
      | Some d \<Rightarrow> \<lparr>inner = (inner s)(root := None), busySignal = dispose (busySignal s) d\<rparr>)"

definition onStatusUpdate ::
  "(string \<Rightarrow> string) \<Rightarrow> Subscription \<Rightarrow> ServerStatusUpdate \<Rightarrow> Subscription" where
  "onStatusUpdate nuclideUriToDisplayString s nextStatus =
     (let s1 = unsubscribeInner s (pathToRoot nextStatus) in
      if status nextStatus = ''init'' \<or> status nextStatus = ''busy''
      then
        let (d, b) = reportBusy (busySignal s1) (busyTitle nuclideUriToDisplayString nextStatus)
        in \<lparr>inner = (inner s1)(pathToRoot nextStatus \<mapsto> d), busySignal = b\<rparr>
      else s1)"

definition subscribed :: "BusySignalService \<Rightarrow> Subscription" where
  "subscribed b = \<lparr>inner = Map.empty, busySignal = b\<rparr>"

definition serverStatusUpdatesToBusyMessages ::
  "(string \<Rightarrow> string) \<Rightarrow> ServerStatusUpdate list \<Rightarrow> BusySignalService \<Rightarrow> Subscription" where
  "serverStatusUpdatesToBusyMessages nuclideUriToDisplayString statusUpdates b =
     fold (\<lambda>u s. onStatusUpdate nuclideUriToDisplayString s u) statusUpdates (subscribed b)"

text \<open>The message that is shown for a root: the one its live inner subscription holds.\<close>

definition messageFor :: "Subscription \<Rightarrow> string \<Rightarrow> string option" where
  "messageFor s root =
     (case inner s root of None \<Rightarrow> None | Some d \<Rightarrow> map_of (shown (busySignal s)) d)"

text \<open>The status of the most recent update of a root, if there was one.\<close>

fun lastStatus :: "ServerStatusUpdate list \<Rightarrow> string \<Rightarrow> string option" where
  "lastStatus [] root = None"
| "lastStatus (u # us) root =
     (case lastStatus us root of
        Some st \<Rightarrow> Some st
      | None \<Rightarrow> if pathToRoot u = root then Some (status u) else None)"

section \<open>The Mercurial service\<close>

datatype MergeConflictStatus = BOTH_CHANGED | DELETED_IN_THEIRS | DELETED_IN_OURS

record ConflictSide =
  contents :: string
  exists_flag :: bool
  isexec :: bool
  issymlink :: bool

record ConflictRecord =
  base :: ConflictSide
  local_side :: ConflictSide
  other :: ConflictSide
  output_path :: string

text \<open>
  Modelled from the spec: the body of \<open>HgService.fetchMergeConflicts\<close> is not among
  the sources, only its test is. The status of a parsed conflict is found by
  comparing the existence flags of its sides: both sides changed when the local and
  the other side exist, deleted on one side otherwise.
\<close>

definition conflictStatus :: "ConflictRecord \<Rightarrow> MergeConflictStatus" where
  "conflictStatus conflict =
     (if exists_flag (local_side conflict) \<and> exists_flag (other conflict) then BOTH_CHANGED
      else if exists_flag (local_side conflict) then DELETED_IN_THEIRS
      else DELETED_IN_OURS)"

definition fetchMergeConflicts :: "ConflictRecord list \<Rightarrow> (string \<times> MergeConflictStatus) list" where
  "fetchMergeConflicts conflicts = map (\<lambda>c. (output_path c, conflictStatus c)) conflicts"

text \<open>The two conflicts of \<open>mockOutput\<close> in the test of the service.\<close>

definition mockOutput :: "ConflictRecord list" where
  "mockOutput =
     [\<lparr>base = \<lparr>contents = [], exists_flag = True, isexec = False, issymlink = False\<rparr>,
       local_side = \<lparr>contents = ''t1'', exists_flag = True, isexec = False, issymlink = False\<rparr>,
       other = \<lparr>contents = ''t2'', exists_flag = True, isexec = False, issymlink = False\<rparr>,
       output_path = ''temp1''\<rparr>,
      \<lparr>base = \<lparr>contents = [], exists_flag = False, isexec = False, issymlink = False\<rparr>,
       local_side = \<lparr>contents = ''t1'', exists_flag = False, isexec = False, issymlink = False\<rparr>,
       other = \<lparr>contents = ''t2'', exists_flag = True, isexec = False, issymlink = False\<rparr>,
       output_path = ''temp2''\<rparr>]"

text \<open>
  Modelled from the spec: the body of \<open>HgService.getConfigValueAsync\<close> is not among
  the sources, only its test is. It runs \<open>hg config\<close> with the key through
  \<open>hgAsyncExecute\<close> and gives the output; on a missing configuration, that is
  when the run throws, it returns \<open>null\<close>. \<open>hgAsyncExecute\<close> is a parameter: it
  throws (\<open>Inl\<close>) or gives the standard output.
\<close>

definition getConfigValueAsync ::
  "(string list \<Rightarrow> string \<Rightarrow> string + string) \<Rightarrow> string \<Rightarrow> string \<Rightarrow> string + string option" where
  "getConfigValueAsync hgAsyncExecute workingDirectory key =
     (case hgAsyncExecute [''config'', key] workingDirectory of
        Inl e \<Rightarrow> Inr None
      | Inr stdout \<Rightarrow> Inr (Some stdout))"

text \<open>
  The numbers of the disposables are handed out in increasing order: every message
  shown and every disposable held is older than the next number, and no two roots
  hold the same disposable.
\<close>

definition fresh_ids :: "Subscription \<Rightarrow> bool" where
  "fresh_ids s \<longleftrightarrow>
     (\<forall>i \<in> fst ` set (shown (busySignal s)). i < nextId (busySignal s)) \<and>
     (\<forall>r d. inner s r = Some d \<longrightarrow> d < nextId (busySignal s)) \<and>
     (\<forall>r r' d. inner s r = Some d \<longrightarrow> inner s r' = Some d \<longrightarrow> r = r')"

text \<open>The roots whose most recent update has the status \<open>init\<close> or \<open>busy\<close>.\<close>

definition activeRoots :: "ServerStatusUpdate list \<Rightarrow> string set" where
  "activeRoots us = {root. lastStatus us root = Some ''init'' \<or> lastStatus us root = Some ''busy''}"

text \<open>
  The messages that the service shows beyond those it had at the start, which have the
  numbers from \<open>n0\<close> on, are those of the disposables that the live inner
  subscriptions hold, one for each root that holds one.
\<close>

definition tracked :: "nat \<Rightarrow> Subscription \<Rightarrow> bool" where
  "tracked n0 s \<longleftrightarrow>
     n0 \<le> nextId (busySignal s) \<and>
     finite (dom (inner s)) \<and>
     (\<forall>r d. inner s r = Some d \<longrightarrow> n0 \<le> d) \<and>
     mset (filter (\<lambda>(i, _). n0 \<le> i) (shown (busySignal s))) =
       image_mset (\<lambda>r. (the (inner s r), the (messageFor s r))) (mset_set (dom (inner s)))"

section \<open>Properties of \<open>computeDisplayPaths\<close>\<close>

declare loop.simps [simp del]

subsection \<open>Counting the keys\<close>

lemma getSeen_setSeen_other: "k \<noteq> x \<Longrightarrow> getSeen (setSeen m x v) k = getSeen m k"
  by (simp add: getSeen_def setSeen_def)

lemma getSeen_bumpSeen_other: "k \<noteq> x \<Longrightarrow> getSeen (bumpSeen m x) k = getSeen m k"
  by (simp add: bumpSeen_def getSeen_setSeen_other)

lemma proto_key: "''__proto__'' \<in> set objectPrototypeKeys"
  by (simp add: objectPrototypeKeys_def)

lemma getSeen_bumpSeen_same:
  assumes "k \<notin> set objectPrototypeKeys"
  shows "getSeen (bumpSeen m k) k =
           (if getSeen m k = Undefined then Num 1 else jsIncr (getSeen m k))"
proof -
  from assms proto_key have "k \<noteq> ''__proto__''" by blast
  then show ?thesis by (simp add: bumpSeen_def getSeen_def setSeen_def)
qed

lemma getSeen_fold_plain:
  assumes "k \<notin> set objectPrototypeKeys"
  shows "getSeen (fold (\<lambda>x m. bumpSeen m x) ks Map.empty) k =
           (if count_list ks k = 0 then Undefined else Num (count_list ks k))"
proof (induction ks rule: rev_induct)
  case Nil
  then show ?case using assms by (simp add: getSeen_def)
next
  case (snoc x ks)
  show ?case
  proof (cases "k = x")
    case True
    then show ?thesis using snoc assms by (simp add: getSeen_bumpSeen_same)
  next
    case False
    then show ?thesis using snoc by (simp add: getSeen_bumpSeen_other)
  qed
qed

lemma getSeen_fold_inherited:
  assumes "k \<in> set objectPrototypeKeys"
  shows "getSeen (fold (\<lambda>x m. bumpSeen m x) ks Map.empty) k \<in> {Inherited, NaN}"
proof (induction ks rule: rev_induct)
  case Nil
  then show ?case using assms by (simp add: getSeen_def)
next
  case (snoc x ks)
  show ?case
  proof (cases "k = x")
    case True
    then show ?thesis using snoc
      by (auto simp: bumpSeen_def getSeen_def setSeen_def split: option.splits if_splits)
  next
    case False
    then show ?thesis using snoc by (simp add: getSeen_bumpSeen_other)
  qed
qed

lemma countSeen_keys:
  "countSeen dps tp m = fold (\<lambda>x m. bumpSeen m x) (map (\<lambda>i. keyOf (dps ! i)) tp) m"
  by (simp add: countSeen_def fold_map comp_def)

lemma getSeen_countSeen_one:
  "getSeen (countSeen dps tp Map.empty) k = Num 1 \<longleftrightarrow>
     k \<notin> set objectPrototypeKeys \<and> count_list (map (\<lambda>i. keyOf (dps ! i)) tp) k = 1"
proof (cases "k \<in> set objectPrototypeKeys")
  case True
  with getSeen_fold_inherited [OF True, of "map (\<lambda>i. keyOf (dps ! i)) tp"]
  show ?thesis by (auto simp: countSeen_keys)
next
  case False
  then show ?thesis by (simp add: countSeen_keys getSeen_fold_plain)
qed

lemma count_list_two:
  assumes "distinct tp" "i \<in> set tp" "j \<in> set tp" "i \<noteq> j" "f i = k" "f j = k"
  shows "2 \<le> count_list (map f tp) k"
  using assms
proof (induction tp)
  case Nil
  then show ?case by simp
next
  case (Cons x tp)
  have one: "1 \<le> count_list (map f tp) k" if "a \<in> set tp" "f a = k" for a
  proof -
    from that have "k \<in> set (map f tp)" by auto
    then have "count_list (map f tp) k \<noteq> 0" by (simp only: count_list_0_iff) simp
    then show ?thesis by simp
  qed
  show ?case
  proof (cases "x = i \<or> x = j")
    case True
    then show ?thesis using Cons.prems one [of i] one [of j] by auto
  next
    case False
    then show ?thesis using Cons by auto
  qed
qed

subsection \<open>Marking\<close>

lemma markOne_markStep: "markOne m i dps = dps[i := markStep m (dps ! i)]"
  by (simp add: markOne_def markStep_def Let_def)

lemma length_markAll: "length (markAll m tp dps) = length dps"
  unfolding markAll_def by (induction tp arbitrary: dps) (simp_all add: markOne_markStep)

lemma markAll_nth:
  assumes "distinct tp" "j < length dps"
  shows "markAll m tp dps ! j = (if j \<in> set tp then markStep m (dps ! j) else dps ! j)"
  using assms unfolding markAll_def
proof (induction tp arbitrary: dps)
  case Nil
  then show ?case by simp
next
  case (Cons i tp)
  have "fold (markOne m) (i # tp) dps ! j = fold (markOne m) tp (dps[i := markStep m (dps ! i)]) ! j"
    by (simp add: markOne_markStep)
  also have "\<dots> = (if j \<in> set tp then markStep m (dps[i := markStep m (dps ! i)] ! j)
                    else dps[i := markStep m (dps ! i)] ! j)"
    using Cons.IH [of "dps[i := markStep m (dps ! i)]"] Cons.prems by simp
  also have "\<dots> = (if j \<in> set (i # tp) then markStep m (dps ! j) else dps ! j)"
  proof (cases "j = i")
    case True
    then show ?thesis using Cons.prems by simp
  next
    case False
    then show ?thesis by simp
  qed
  finally show ?case .
qed

lemma pathParts_markStep [simp]: "pathParts (markStep m dp) = pathParts dp"
  and separator_markStep [simp]: "separator (markStep m dp) = separator dp"
  by (simp_all add: markStep_def)

lemma depth_markStep_ge: "depth dp \<le> depth (markStep m dp)"
  by (simp add: markStep_def)

lemma map_update_same: "f y = f (xs ! i) \<Longrightarrow> map f (xs[i := y]) = map f xs"
  by (metis list_update_id map_update)

lemma markAll_fields:
  "map pathParts (markAll m tp dps) = map pathParts dps \<and>
   map separator (markAll m tp dps) = map separator dps"
  unfolding markAll_def
  by (induction tp arbitrary: dps) (simp_all add: markOne_markStep map_update_same)

lemma markAll_depth_pos:
  "\<forall>dp \<in> set dps. 1 \<le> depth dp \<Longrightarrow> \<forall>dp \<in> set (markAll m tp dps). 1 \<le> depth dp"
  unfolding markAll_def
proof (induction tp arbitrary: dps)
  case Nil
  then show ?case by simp
next
  case (Cons i tp)
  have "\<forall>dp \<in> set (dps[i := markStep m (dps ! i)]). 1 \<le> depth dp"
  proof
    fix dp assume "dp \<in> set (dps[i := markStep m (dps ! i)])"
    then have "dp = markStep m (dps ! i) \<and> i < length dps \<or> dp \<in> set dps"
      by (metis in_set_conv_nth length_list_update nth_list_update_eq nth_list_update_neq nth_mem)
    then show "1 \<le> depth dp"
      using Cons.prems depth_markStep_ge [of "dps ! i" m]
      by (metis le_trans nth_mem)
  qed
  from Cons.IH [OF this] show ?case by (simp add: markOne_markStep)
qed

subsection \<open>Invariants\<close>

lemma loop_invariant:
  assumes "P s"
    and "\<And>s. P s \<Longrightarrow> int (currentDepth s) < m \<Longrightarrow> toProcess s \<noteq> [] \<Longrightarrow> P (loopBody s)"
  shows "P (loop m s) \<and> \<not> (int (currentDepth (loop m s)) < m \<and> toProcess (loop m s) \<noteq> [])"
  using assms
proof (induction m s rule: loop.induct)
  case (1 maxDepth s)
  show ?case
  proof (cases "int (currentDepth s) < maxDepth \<and> toProcess s \<noteq> []")
    case True
    then have "P (loopBody s)" using "1.prems" by blast
    have e: "loop maxDepth s = loop maxDepth (loopBody s)"
      using True by (subst loop.simps) simp
    from "1.IH" [OF True \<open>P (loopBody s)\<close> "1.prems"(2)] show ?thesis
      unfolding e .
  next
    case False
    have e: "loop maxDepth s = s"
      using False by (subst loop.simps) auto
    show ?thesis unfolding e using False "1.prems"(1) by blast
  qed
qed

lemma fields_kept_loopBody: "fields_kept seps parts s \<Longrightarrow> fields_kept seps parts (loopBody s)"
  unfolding fields_kept_def loopBody_def Let_def
  using markAll_fields [of _ "toProcess s" "displayPaths s"]
    markAll_depth_pos [of "displayPaths s" _ "toProcess s"] by simp

lemma fields_kept_initState:
  "fields_kept (map sepf ps) (map (\<lambda>p. rev (split (sepf p) p)) ps) (initState sepf ps)"
  by (simp add: fields_kept_def initState_def initPath_def Let_def comp_def)

lemma fields_kept_loop:
  "fields_kept (map sepf ps) (map (\<lambda>p. rev (split (sepf p) p)) ps) (loop m (initState sepf ps))"
  using loop_invariant [where P = "fields_kept (map sepf ps) (map (\<lambda>p. rev (split (sepf p) p)) ps)",
      OF fields_kept_initState fields_kept_loopBody]
  by blast

lemma wf_initState: "wf_state (initState sepf ps)"
  by (simp add: wf_state_def initState_def initPath_def Let_def)

lemma markStep_final:
  assumes "seenCount s = Map.empty"
  shows "markStep (countSeen (displayPaths s) (toProcess s) (seenCount s)) (displayPaths s ! i) =
           (if finalNow s i then (displayPaths s ! i)\<lparr>isDone := True\<rparr>
            else (displayPaths s ! i)\<lparr>depth := depth (displayPaths s ! i) + 1\<rparr>)"
  unfolding markStep_def assms finalNow_def roundKeys_def getSeen_countSeen_one by simp

lemma loopBody_nth:
  assumes "wf_state s" "j < length (displayPaths s)"
  shows "displayPaths (loopBody s) ! j =
           (if j \<in> set (toProcess s)
            then (if finalNow s j then (displayPaths s ! j)\<lparr>isDone := True\<rparr>
                  else (displayPaths s ! j)\<lparr>depth := depth (displayPaths s ! j) + 1\<rparr>)
            else displayPaths s ! j)"
proof -
  from assms(1) have d: "distinct (toProcess s)" and e: "seenCount s = Map.empty"
    unfolding wf_state_def by blast+
  show ?thesis
    by (simp add: loopBody_def Let_def markAll_nth [OF d assms(2)] markStep_final [OF e])
qed

lemma length_loopBody: "length (displayPaths (loopBody s)) = length (displayPaths s)"
  by (simp add: loopBody_def Let_def length_markAll)

lemma currentDepth_loopBody: "currentDepth (loopBody s) = currentDepth s + 1"
  by (simp add: loopBody_def Let_def)

lemma toProcess_loopBody:
  assumes "wf_state s"
  shows "toProcess (loopBody s) = filter (\<lambda>i. \<not> finalNow s i) (toProcess s)"
proof -
  have "filter (\<lambda>i. \<not> isDone (displayPaths (loopBody s) ! i)) (toProcess s) =
        filter (\<lambda>i. \<not> finalNow s i) (toProcess s)"
  proof (rule filter_cong [OF refl])
    fix i assume i: "i \<in> set (toProcess s)"
    with assms have "i < length (displayPaths s)" "\<not> isDone (displayPaths s ! i)"
      unfolding wf_state_def by blast+
    then show "(\<not> isDone (displayPaths (loopBody s) ! i)) = (\<not> finalNow s i)"
      using i by (simp add: loopBody_nth [OF assms])
  qed
  then show ?thesis by (simp add: loopBody_def Let_def)
qed

lemma wf_loopBody:
  assumes "wf_state s"
  shows "wf_state (loopBody s)"
proof -
  note n = loopBody_nth [OF assms]
  note t = toProcess_loopBody [OF assms]
  note l = length_loopBody [of s]
  note c = currentDepth_loopBody [of s]
  have s0: "seenCount (loopBody s) = Map.empty" by (simp add: loopBody_def Let_def)
  from assms have w:
    "distinct (toProcess s)"
    "\<And>i. i \<in> set (toProcess s) \<Longrightarrow> i < length (displayPaths s)"
    "\<And>i. i \<in> set (toProcess s) \<Longrightarrow> depth (displayPaths s ! i) = currentDepth s"
    "\<And>i. i \<in> set (toProcess s) \<Longrightarrow> \<not> isDone (displayPaths s ! i)"
    "\<And>i. i < length (displayPaths s) \<Longrightarrow> i \<notin> set (toProcess s) \<Longrightarrow> isDone (displayPaths s ! i)"
    "\<And>i. i < length (displayPaths s) \<Longrightarrow> 1 \<le> depth (displayPaths s ! i)"
    "\<And>i. i < length (displayPaths s) \<Longrightarrow> depth (displayPaths s ! i) \<le> currentDepth s"
    "1 \<le> currentDepth s"
    unfolding wf_state_def by blast+
  have a: "distinct (toProcess (loopBody s))" using w(1) by (simp add: t)
  have b: "i < length (displayPaths (loopBody s)) \<and>
        depth (displayPaths (loopBody s) ! i) = currentDepth (loopBody s) \<and>
        \<not> isDone (displayPaths (loopBody s) ! i)" if "i \<in> set (toProcess (loopBody s))" for i
  proof -
    from that have i: "i \<in> set (toProcess s)" "\<not> finalNow s i" by (simp_all add: t)
    then show ?thesis using w(2,3,4) [OF i(1)] by (simp add: l c n)
  qed
  have d: "isDone (displayPaths (loopBody s) ! i)"
    if "i < length (displayPaths (loopBody s))" "i \<notin> set (toProcess (loopBody s))" for i
  proof (cases "i \<in> set (toProcess s)")
    case True
    with that have "finalNow s i" by (simp add: t)
    then show ?thesis using that True by (simp add: l n)
  next
    case False
    then show ?thesis using that w(5) by (simp add: l n)
  qed
  have e: "1 \<le> depth (displayPaths (loopBody s) ! i) \<and>
        depth (displayPaths (loopBody s) ! i) \<le> currentDepth (loopBody s)"
    if "i < length (displayPaths (loopBody s))" for i
    using that w(3) [of i] w(6,7) [of i] by (auto simp: l n c)
  show ?thesis
    unfolding wf_state_def using a b d e s0 w(8) c by auto
qed

lemma funpow_loopBody_depth: "currentDepth ((loopBody ^^ k) s) = currentDepth s + k"
  by (induction k) (simp_all add: currentDepth_loopBody)

lemma loop_funpow:
  "\<exists>k. loop m s = (loopBody ^^ k) s \<and>
       (\<forall>j<k. int (currentDepth ((loopBody ^^ j) s)) < m \<and> toProcess ((loopBody ^^ j) s) \<noteq> [])"
proof (induction m s rule: loop.induct)
  case (1 maxDepth s)
  show ?case
  proof (cases "int (currentDepth s) < maxDepth \<and> toProcess s \<noteq> []")
    case True
    have e: "loop maxDepth s = loop maxDepth (loopBody s)"
      using True by (subst loop.simps) simp
    from "1.IH" [OF True] obtain k where
      k: "loop maxDepth (loopBody s) = (loopBody ^^ k) (loopBody s)"
         "\<forall>j<k. int (currentDepth ((loopBody ^^ j) (loopBody s))) < maxDepth \<and>
                 toProcess ((loopBody ^^ j) (loopBody s)) \<noteq> []"
      by blast
    have "loop maxDepth s = (loopBody ^^ Suc k) s"
      unfolding e k(1) by (simp add: funpow_swap1)
    moreover have "int (currentDepth ((loopBody ^^ j) s)) < maxDepth \<and>
                   toProcess ((loopBody ^^ j) s) \<noteq> []" if "j < Suc k" for j
    proof (cases j)
      case 0
      then show ?thesis using True by simp
    next
      case (Suc j')
      with that have "j' < k" by simp
      with k(2) show ?thesis unfolding Suc by (simp add: funpow_swap1)
    qed
    ultimately show ?thesis by blast
  next
    case False
    have "loop maxDepth s = (loopBody ^^ 0) s"
      using False by (subst loop.simps) auto
    then show ?thesis by blast
  qed
qed

lemma loop_rounds_bound:
  "\<exists>k. loop m (initState sepf ps) = (loopBody ^^ k) (initState sepf ps) \<and> int k \<le> max 0 (m - 1)"
proof -
  from loop_funpow [of m "initState sepf ps"] obtain k where
    k: "loop m (initState sepf ps) = (loopBody ^^ k) (initState sepf ps)"
       "\<forall>j<k. int (currentDepth ((loopBody ^^ j) (initState sepf ps))) < m"
    by blast
  have "int k \<le> max 0 (m - 1)"
  proof (cases k)
    case 0
    then show ?thesis by simp
  next
    case (Suc k')
    with k(2) have "int (currentDepth ((loopBody ^^ k') (initState sepf ps))) < m" by simp
    then have "int (1 + k') < m"
      by (simp add: funpow_loopBody_depth initState_def)
    then show ?thesis using Suc by simp
  qed
  with k(1) show ?thesis by blast
qed

lemma wf_funpow: "wf_state ((loopBody ^^ k) (initState sepf ps))"
  by (induction k) (simp_all add: wf_initState wf_loopBody)


lemma round_step:
  assumes "s = (loopBody ^^ k) (initState sepf ps)" "i < length ps"
  shows "(i \<notin> set (toProcess s) \<longrightarrow>
            displayPaths (loopBody s) ! i = displayPaths s ! i \<and> i \<notin> set (toProcess (loopBody s))) \<and>
         (i \<in> set (toProcess s) \<longrightarrow>
            depth (displayPaths s ! i) = k + 1 \<and>
            (depth (displayPaths s ! i) = length (pathParts (displayPaths s ! i)) \<longrightarrow>
               i \<notin> set (toProcess (loopBody s)) \<and> isDone (displayPaths (loopBody s) ! i) \<and>
               depth (displayPaths (loopBody s) ! i) = depth (displayPaths s ! i)) \<and>
            (keyOf (displayPaths s ! i) \<notin> set objectPrototypeKeys \<and>
             count_list (roundKeys s) (keyOf (displayPaths s ! i)) = 1 \<longrightarrow>
               i \<notin> set (toProcess (loopBody s)) \<and> isDone (displayPaths (loopBody s) ! i) \<and>
               depth (displayPaths (loopBody s) ! i) = depth (displayPaths s ! i)) \<and>
            (depth (displayPaths s ! i) \<noteq> length (pathParts (displayPaths s ! i)) \<and>
             count_list (roundKeys s) (keyOf (displayPaths s ! i)) \<noteq> 1 \<longrightarrow>
               i \<in> set (toProcess (loopBody s)) \<and>
               depth (displayPaths (loopBody s) ! i) = depth (displayPaths s ! i) + 1))"
proof -
  have w: "wf_state s" unfolding assms(1) by (rule wf_funpow)
  have "length (displayPaths ((loopBody ^^ k) (initState sepf ps))) = length ps"
    by (induction k) (simp_all add: length_loopBody initState_def)
  then have l: "i < length (displayPaths s)" using assms by simp
  have c: "currentDepth s = k + 1"
    unfolding assms(1) by (simp add: funpow_loopBody_depth initState_def)
  have d: "i \<in> set (toProcess s) \<Longrightarrow> depth (displayPaths s ! i) = k + 1"
    using w c unfolding wf_state_def by simp
  show ?thesis
    using d
    by (auto simp: toProcess_loopBody [OF w] loopBody_nth [OF w l] finalNow_def)
qed

subsection \<open>Joining what was split\<close>

lemma join_Cons: "join sep (x # xs) = (if xs = [] then x else x @ sep @ join sep xs)"
  by (cases xs) simp_all

lemma split_go_nonempty: "split_go sep acc s \<noteq> []"
  by (induction sep acc s rule: split_go.induct) auto

lemma join_split_go: "sep \<noteq> [] \<Longrightarrow> join sep (split_go sep acc s) = rev acc @ s"
proof (induction sep acc s rule: split_go.induct)
  case (1 sep acc)
  then show ?case by simp
next
  case (2 sep acc c cs)
  show ?case
  proof (cases "take (length sep) (c # cs) = sep")
    case True
    have "join sep (split_go sep acc (c # cs)) =
          rev acc @ sep @ join sep (split_go sep [] (drop (length sep) (c # cs)))"
      using True "2.prems" by (simp add: join_Cons split_go_nonempty)
    also have "\<dots> = rev acc @ sep @ drop (length sep) (c # cs)"
      using "2.IH"(1) True "2.prems" by simp
    also have "\<dots> = rev acc @ (c # cs)"
      using True by (metis append_take_drop_id)
    finally show ?thesis .
  next
    case False
    then show ?thesis using "2.IH"(2) "2.prems" by simp
  qed
qed

lemma join_split: "join sep (split sep s) = s"
proof (cases "sep = []")
  case True
  have "join [] (map (\<lambda>c. [c]) s) = s"
    by (induction s) (simp_all add: join_Cons)
  then show ?thesis using True by (simp add: split_def)
next
  case False
  then show ?thesis by (simp add: split_def join_split_go)
qed

lemma render_path_suffix:
  "render_path dp = join (separator dp)
      (drop (length (pathParts dp) - depth dp) (rev (pathParts dp)))"
  by (simp add: render_path_def rev_take)

lemma computeDisplayPaths_nth:
  assumes "i < length ps"
  shows "length (computeDisplayPaths sepf ps m) = length ps \<and>
     (\<exists>d\<ge>1. computeDisplayPaths sepf ps m ! i =
        join (sepf (ps ! i))
          (drop (length (split (sepf (ps ! i)) (ps ! i)) - d) (split (sepf (ps ! i)) (ps ! i))))"
proof -
  let ?s = "loop m (initState sepf ps)"
  let ?dps = "displayPaths ?s"
  from fields_kept_loop [of sepf ps m] have
    seps: "map separator ?dps = map sepf ps"
    and parts: "map pathParts ?dps = map (\<lambda>p. rev (split (sepf p) p)) ps"
    and pos: "\<forall>dp \<in> set ?dps. 1 \<le> depth dp"
    unfolding fields_kept_def by blast+
  from seps have len: "length ?dps = length ps" by (metis length_map)
  with assms have i: "i < length ?dps" by simp
  have s: "separator (?dps ! i) = sepf (ps ! i)"
    using seps i assms by (metis nth_map)
  have p: "pathParts (?dps ! i) = rev (split (sepf (ps ! i)) (ps ! i))"
    using parts i assms by (metis (no_types, lifting) nth_map)
  have d: "1 \<le> depth (?dps ! i)" using pos i by simp
  have "computeDisplayPaths sepf ps m ! i = render_path (?dps ! i)"
    using i by (simp add: computeDisplayPaths_def)
  also have "\<dots> = join (sepf (ps ! i))
      (drop (length (split (sepf (ps ! i)) (ps ! i)) - depth (?dps ! i)) (split (sepf (ps ! i)) (ps ! i)))"
    by (simp add: render_path_suffix s p)
  finally show ?thesis using d len by (auto simp: computeDisplayPaths_def)
qed

lemma computeDisplayPaths_depth:
  assumes "i < length ps"
  shows "computeDisplayPaths sepf ps m ! i =
     join (sepf (ps ! i))
       (drop (length (split (sepf (ps ! i)) (ps ! i)) -
              depth (displayPaths (loop m (initState sepf ps)) ! i))
             (split (sepf (ps ! i)) (ps ! i)))"
proof -
  let ?s = "loop m (initState sepf ps)"
  let ?dps = "displayPaths ?s"
  from fields_kept_loop [of sepf ps m] have
    seps: "map separator ?dps = map sepf ps"
    and parts: "map pathParts ?dps = map (\<lambda>p. rev (split (sepf p) p)) ps"
    unfolding fields_kept_def by blast+
  from seps have len: "length ?dps = length ps" by (metis length_map)
  with assms have i: "i < length ?dps" by simp
  have s: "separator (?dps ! i) = sepf (ps ! i)"
    using seps i assms by (metis nth_map)
  have p: "pathParts (?dps ! i) = rev (split (sepf (ps ! i)) (ps ! i))"
    using parts i assms by (metis (no_types, lifting) nth_map)
  have "computeDisplayPaths sepf ps m ! i = render_path (?dps ! i)"
    using i by (simp add: computeDisplayPaths_def)
  then show ?thesis by (simp add: render_path_suffix s p)
qed

subsection \<open>Paths that occur twice\<close>

lemma twins_loopBody:
  assumes w: "wf_state s" and t: "twins i j s"
    and ij: "i < length (displayPaths s)" "j < length (displayPaths s)" "i \<noteq> j"
    and p: "pathParts (displayPaths s ! i) = pathParts (displayPaths s ! j)"
  shows "twins i j (loopBody s)"
proof (cases "i \<in> set (toProcess s)")
  case True
  with t have j: "j \<in> set (toProcess s)" unfolding twins_def by blast
  from w True j have d: "depth (displayPaths s ! i) = currentDepth s"
    "depth (displayPaths s ! j) = currentDepth s" "distinct (toProcess s)"
    unfolding wf_state_def by blast+
  then have k: "keyOf (displayPaths s ! j) = keyOf (displayPaths s ! i)"
    using p by (simp add: keyOf_def)
  have "2 \<le> count_list (roundKeys s) (keyOf (displayPaths s ! i))"
    unfolding roundKeys_def
    using count_list_two [OF d(3) True j ij(3) refl k] .
  then have f: "finalNow s i \<longleftrightarrow> depth (displayPaths s ! i) = length (pathParts (displayPaths s ! i))"
    "finalNow s j \<longleftrightarrow> depth (displayPaths s ! j) = length (pathParts (displayPaths s ! j))"
    unfolding finalNow_def k by auto
  then have fij: "finalNow s i \<longleftrightarrow> finalNow s j" using d p by simp
  show ?thesis
  proof (cases "finalNow s i")
    case True
    with fij f show ?thesis
      unfolding twins_def
      using \<open>i \<in> set (toProcess s)\<close> j ij
      by (simp add: toProcess_loopBody [OF w] loopBody_nth [OF w])
  next
    case False
    with fij show ?thesis
      unfolding twins_def
      using \<open>i \<in> set (toProcess s)\<close> j
      by (simp add: toProcess_loopBody [OF w])
  qed
next
  case False
  with t show ?thesis
    unfolding twins_def using ij
    by (simp add: toProcess_loopBody [OF w] loopBody_nth [OF w])
qed

lemma twin_inv_loopBody:
  assumes "twin_inv seps parts m i j s" "int (currentDepth s) < m"
    and "i < length parts" "j < length parts" "i \<noteq> j" "parts ! i = parts ! j"
  shows "twin_inv seps parts m i j (loopBody s)"
proof -
  from assms(1) have w: "wf_state s" and f: "fields_kept seps parts s" and t: "twins i j s"
    unfolding twin_inv_def by blast+
  from f have mp: "map pathParts (displayPaths s) = parts" unfolding fields_kept_def by blast
  then have l: "length (displayPaths s) = length parts" by (metis length_map)
  have pi: "pathParts (displayPaths s ! i) = parts ! i" using mp assms(3) l by (metis nth_map)
  have pj: "pathParts (displayPaths s ! j) = parts ! j" using mp assms(4) l by (metis nth_map)
  have "twins i j (loopBody s)"
    using twins_loopBody [OF w t, of] assms(3,4,5,6) l pi pj by simp
  then show ?thesis
    unfolding twin_inv_def
    using wf_loopBody [OF w] fields_kept_loopBody [OF f] assms(2)
    by (simp add: currentDepth_loopBody)
qed

lemma twin_depth:
  assumes ij: "i < length ps" "j < length ps" "i \<noteq> j" "ps ! i = ps ! j"
  shows "take (depth (displayPaths (loop m (initState sepf ps)) ! i))
              (rev (split (sepf (ps ! i)) (ps ! i))) =
         take (nat (max 1 m)) (rev (split (sepf (ps ! i)) (ps ! i)))"
proof -
  let ?seps = "map sepf ps" and ?parts = "map (\<lambda>p. rev (split (sepf p) p)) ps"
  let ?s = "loop m (initState sepf ps)"
  have pij: "?parts ! i = ?parts ! j" using ij by simp
  have init: "twin_inv ?seps ?parts m i j (initState sepf ps)"
    unfolding twin_inv_def twins_def
    using wf_initState fields_kept_initState ij
    by (simp add: initState_def)
  have step: "twin_inv ?seps ?parts m i j (loopBody s)"
    if "twin_inv ?seps ?parts m i j s" "int (currentDepth s) < m" "toProcess s \<noteq> []" for s
    using twin_inv_loopBody [OF that(1,2) _ _ ij(3) pij] ij by simp
  from loop_invariant [where P = "twin_inv ?seps ?parts m i j", OF init step]
  have inv: "twin_inv ?seps ?parts m i j ?s"
    and ex: "\<not> (int (currentDepth ?s) < m \<and> toProcess ?s \<noteq> [])" by blast+
  from inv have w: "wf_state ?s" and f: "fields_kept ?seps ?parts ?s" and t: "twins i j ?s"
    and c: "int (currentDepth ?s) \<le> max 1 m"
    unfolding twin_inv_def by blast+
  from f have mp: "map pathParts (displayPaths ?s) = ?parts" unfolding fields_kept_def by blast
  then have l: "length (displayPaths ?s) = length ps" by (metis length_map)
  have pi: "pathParts (displayPaths ?s ! i) = rev (split (sepf (ps ! i)) (ps ! i))"
    using mp ij(1) l by (metis (no_types, lifting) nth_map)
  show ?thesis
  proof (cases "i \<in> set (toProcess ?s)")
    case True
    then have "toProcess ?s \<noteq> []" by auto
    with ex have "m \<le> int (currentDepth ?s)" by simp
    moreover from w have "1 \<le> currentDepth ?s" unfolding wf_state_def by blast
    ultimately have "currentDepth ?s = nat (max 1 m)" using c by simp
    moreover from w True have "depth (displayPaths ?s ! i) = currentDepth ?s"
      unfolding wf_state_def by blast
    ultimately show ?thesis by simp
  next
    case False
    with t have d: "depth (displayPaths ?s ! i) = length (pathParts (displayPaths ?s ! i))"
      unfolding twins_def by blast
    from w ij(1) l have "depth (displayPaths ?s ! i) \<le> currentDepth ?s"
      unfolding wf_state_def by simp
    with c have "depth (displayPaths ?s ! i) \<le> nat (max 1 m)" by simp
    then show ?thesis using d pi by simp
  qed
qed

lemma duplicate_display:
  assumes ij: "i < length ps" "j < length ps" "i \<noteq> j" "ps ! i = ps ! j"
  shows "computeDisplayPaths sepf ps m ! i =
           join (sepf (ps ! i))
             (drop (length (split (sepf (ps ! i)) (ps ! i)) - nat (max 1 m))
                   (split (sepf (ps ! i)) (ps ! i)))"
proof -
  let ?s = "loop m (initState sepf ps)"
  from fields_kept_loop [of sepf ps m] have
    seps: "map separator (displayPaths ?s) = map sepf ps"
    and parts: "map pathParts (displayPaths ?s) = map (\<lambda>p. rev (split (sepf p) p)) ps"
    unfolding fields_kept_def by blast+
  from seps have l: "length (displayPaths ?s) = length ps" by (metis length_map)
  have s: "separator (displayPaths ?s ! i) = sepf (ps ! i)"
    using seps l ij(1) by (metis nth_map)
  have p: "pathParts (displayPaths ?s ! i) = rev (split (sepf (ps ! i)) (ps ! i))"
    using parts l ij(1) by (metis (no_types, lifting) nth_map)
  have "computeDisplayPaths sepf ps m ! i = render_path (displayPaths ?s ! i)"
    using ij(1) l by (simp add: computeDisplayPaths_def)
  also have "\<dots> = join (sepf (ps ! i))
       (rev (take (depth (displayPaths ?s ! i)) (rev (split (sepf (ps ! i)) (ps ! i)))))"
    by (simp add: render_path_def s p)
  also have "\<dots> = join (sepf (ps ! i))
       (rev (take (nat (max 1 m)) (rev (split (sepf (ps ! i)) (ps ! i)))))"
    by (simp only: twin_depth [OF ij])
  finally show ?thesis by (simp add: rev_take)
qed

subsection \<open>The shortest suffix that is not shared\<close>

lemma count_list_one_other:
  assumes "distinct tp" "i \<in> set tp" "count_list (map f tp) (f i) \<noteq> 1"
  shows "\<exists>j \<in> set tp. j \<noteq> i \<and> f j = f i"
proof (rule ccontr)
  assume "\<not> ?thesis"
  then have no: "\<And>j. j \<in> set tp \<Longrightarrow> j \<noteq> i \<Longrightarrow> f j \<noteq> f i" by blast
  have "distinct tp \<Longrightarrow> (\<And>j. j \<in> set tp \<Longrightarrow> j \<noteq> i \<Longrightarrow> f j \<noteq> f i) \<Longrightarrow>
        count_list (map f tp) (f i) = (if i \<in> set tp then 1 else 0)"
  proof (induction tp)
    case Nil
    then show ?case by simp
  next
    case (Cons x tp)
    then show ?case by (cases "x = i") auto
  qed
  with assms no show False by simp
qed

lemma to_process_depth_le:
  assumes "minimal_inv parts s" "i \<in> set (toProcess s)" "parts ! i \<noteq> []"
  shows "currentDepth s \<le> length (parts ! i)"
proof (rule ccontr)
  assume "\<not> ?thesis"
  then have "1 \<le> length (parts ! i) \<and> length (parts ! i) < currentDepth s"
    using assms(3) by (simp add: Suc_le_eq)
  with assms(1,2) show False unfolding minimal_inv_def by blast
qed

lemma finalNow_iff:
  assumes w: "wf_state s" and f: "map pathParts (displayPaths s) = parts"
    and q: "minimal_inv parts s" and pk: "plain_keys parts" and i: "i \<in> set (toProcess s)"
  shows "finalNow s i \<longleftrightarrow>
           \<not> shared parts (currentDepth s) i \<or> currentDepth s = length (parts ! i)"
proof -
  let ?c = "currentDepth s"
  let ?key = "\<lambda>j. join ''/'' (take ?c (parts ! j))"
  from f have len: "length (displayPaths s) = length parts" by (metis length_map)
  have tp: "j < length parts \<and> depth (displayPaths s ! j) = ?c \<and>
            pathParts (displayPaths s ! j) = parts ! j \<and> ?c \<le> length (parts ! j)"
    if "j \<in> set (toProcess s)" for j
  proof -
    from w that have a: "j < length (displayPaths s)" "depth (displayPaths s ! j) = ?c"
      unfolding wf_state_def by blast+
    then have b: "pathParts (displayPaths s ! j) = parts ! j" using f by (metis nth_map)
    from a len pk have "parts ! j \<noteq> []" unfolding plain_keys_def by simp
    from to_process_depth_le [OF q that this] a b len show ?thesis by simp
  qed
  have key: "keyOf (displayPaths s ! j) = ?key j" if "j \<in> set (toProcess s)" for j
    using tp [OF that] by (simp add: keyOf_def)
  have rk: "roundKeys s = map ?key (toProcess s)"
    unfolding roundKeys_def using key by simp
  from w have d: "distinct (toProcess s)" unfolding wf_state_def by blast
  from w have c1: "1 \<le> ?c" unfolding wf_state_def by blast
  have np: "?key i \<notin> set objectPrototypeKeys"
    using pk tp [OF i] c1 unfolding plain_keys_def by blast
  have cnt: "count_list (map ?key (toProcess s)) (?key i) = 1 \<longleftrightarrow> \<not> shared parts ?c i"
  proof
    assume one: "count_list (map ?key (toProcess s)) (?key i) = 1"
    show "\<not> shared parts ?c i"
    proof
      assume "shared parts ?c i"
      then obtain j where j: "j < length parts" "j \<noteq> i" "?c \<le> length (parts ! j)"
        "take ?c (parts ! j) = take ?c (parts ! i)" unfolding shared_def by blast
      with q i have "j \<in> set (toProcess s)" unfolding minimal_inv_def by blast
      from count_list_two [OF d i this, of ?key "?key i"] j(2,4) one show False by simp
    qed
  next
    assume ns: "\<not> shared parts ?c i"
    show "count_list (map ?key (toProcess s)) (?key i) = 1"
    proof (rule ccontr)
      assume "count_list (map ?key (toProcess s)) (?key i) \<noteq> 1"
      from count_list_one_other [OF d i this] obtain j where
        j: "j \<in> set (toProcess s)" "j \<noteq> i" "?key j = ?key i" by blast
      from pk tp [OF i] tp [OF j(1)] j(3) have "take ?c (parts ! j) = take ?c (parts ! i)"
        unfolding plain_keys_def by blast
      with tp [OF j(1)] j(2) have "shared parts ?c i" unfolding shared_def by blast
      with ns show False ..
    qed
  qed
  show ?thesis
    unfolding finalNow_def rk key [OF i] using np cnt tp [OF i] by simp
qed

lemma minimal_inv_initState:
  "minimal_inv (map (\<lambda>p. rev (split (sepf p) p)) ps) (initState sepf ps)"
  unfolding minimal_inv_def by (simp add: initState_def)

lemma take_Suc_eq_take:
  assumes "take (Suc c) xs = take (Suc c) ys"
  shows "take c xs = take c ys"
proof -
  have "take c (take (Suc c) xs) = take c (take (Suc c) ys)" using assms by simp
  then show ?thesis by (simp add: min_def)
qed

lemma minimal_inv_loopBody:
  assumes w: "wf_state s" and f: "map pathParts (displayPaths s) = parts"
    and q: "minimal_inv parts s" and pk: "plain_keys parts"
  shows "minimal_inv parts (loopBody s)"
proof -
  let ?c = "currentDepth s"
  let ?s' = "loopBody s"
  note fin = finalNow_iff [OF w f q pk]
  note tp' = toProcess_loopBody [OF w]
  note nth' = loopBody_nth [OF w]
  note c' = currentDepth_loopBody [of s]
  from f have len: "length (displayPaths s) = length parts" by (metis length_map)
  from w have c1: "1 \<le> ?c" unfolding wf_state_def by blast
  from w have dep: "\<And>i. i \<in> set (toProcess s) \<Longrightarrow>
      i < length parts \<and> depth (displayPaths s ! i) = ?c"
    unfolding wf_state_def len [symmetric] by blast
  from q have q1: "\<And>i d. i \<in> set (toProcess s) \<Longrightarrow> 1 \<le> d \<Longrightarrow> d < ?c \<Longrightarrow>
      shared parts d i \<and> d \<noteq> length (parts ! i)"
    and q2: "\<And>i j. i \<in> set (toProcess s) \<Longrightarrow> j < length parts \<Longrightarrow>
      ?c \<le> length (parts ! j) \<Longrightarrow> take ?c (parts ! j) = take ?c (parts ! i) \<Longrightarrow>
      j \<in> set (toProcess s)"
    and q3: "\<And>i. i < length parts \<Longrightarrow> i \<notin> set (toProcess s) \<Longrightarrow>
      (\<not> shared parts (depth (displayPaths s ! i)) i \<or>
         depth (displayPaths s ! i) = length (parts ! i)) \<and>
      (\<forall>d. 1 \<le> d \<and> d < depth (displayPaths s ! i) \<longrightarrow>
           shared parts d i \<and> d \<noteq> length (parts ! i))"
    unfolding minimal_inv_def by blast+
  have a: "shared parts d i \<and> d \<noteq> length (parts ! i)"
    if "i \<in> set (toProcess ?s')" "1 \<le> d" "d < currentDepth ?s'" for i d
  proof -
    from that(1) have i: "i \<in> set (toProcess s)" "\<not> finalNow s i" by (simp_all add: tp')
    show ?thesis
    proof (cases "d < ?c")
      case True
      then show ?thesis using q1 [OF i(1) that(2)] by blast
    next
      case False
      with that(3) have "d = ?c" by (simp add: c')
      then show ?thesis using i(2) fin [OF i(1)] by simp
    qed
  qed
  have b: "j \<in> set (toProcess ?s')"
    if "i \<in> set (toProcess ?s')" "j < length parts" "currentDepth ?s' \<le> length (parts ! j)"
      "take (currentDepth ?s') (parts ! j) = take (currentDepth ?s') (parts ! i)" for i j
  proof (cases "j = i")
    case True
    then show ?thesis using that(1) by simp
  next
    case False
    from that(1) have i: "i \<in> set (toProcess s)" "\<not> finalNow s i" by (simp_all add: tp')
    from that(3) have lj: "Suc ?c \<le> length (parts ! j)" by (simp add: c')
    from that(4) have "take (Suc ?c) (parts ! j) = take (Suc ?c) (parts ! i)"
      by (simp add: c')
    then have eq: "take ?c (parts ! j) = take ?c (parts ! i)"
      by (rule take_Suc_eq_take)
    from q2 [OF i(1) that(2) _ eq] lj have j: "j \<in> set (toProcess s)" by simp
    from fin [OF i(1)] i(2) have "?c \<noteq> length (parts ! i)" by simp
    moreover from to_process_depth_le [OF q i(1)] pk dep [OF i(1)]
    have "?c \<le> length (parts ! i)" unfolding plain_keys_def by simp
    ultimately have "?c \<le> length (parts ! i)" by simp
    with dep [OF i(1)] False eq have "shared parts ?c j"
      unfolding shared_def by (intro exI [of _ i]) simp
    with lj fin [OF j] have "\<not> finalNow s j" by simp
    with j show ?thesis by (simp add: tp')
  qed
  have c: "(\<not> shared parts (depth (displayPaths ?s' ! i)) i \<or>
            depth (displayPaths ?s' ! i) = length (parts ! i)) \<and>
           (\<forall>d. 1 \<le> d \<and> d < depth (displayPaths ?s' ! i) \<longrightarrow>
              shared parts d i \<and> d \<noteq> length (parts ! i))"
    if "i < length parts" "i \<notin> set (toProcess ?s')" for i
  proof (cases "i \<in> set (toProcess s)")
    case True
    with that(2) have fi: "finalNow s i" by (simp add: tp')
    have "displayPaths ?s' ! i = (displayPaths s ! i)\<lparr>isDone := True\<rparr>"
      using nth' [of i] that(1) len True fi by simp
    then have "depth (displayPaths ?s' ! i) = ?c" using dep [OF True] by simp
    then show ?thesis using fin [OF True] fi q1 [OF True] by simp
  next
    case False
    have "displayPaths ?s' ! i = displayPaths s ! i"
      using nth' [of i] that(1) len False by simp
    then show ?thesis using q3 [OF that(1) False] by simp
  qed
  show ?thesis
    unfolding minimal_inv_def using a b c by blast
qed

lemma minimal_depth:
  assumes pk: "plain_keys (map (\<lambda>p. rev (split (sepf p) p)) ps)" and i: "i < length ps"
  shows "1 \<le> depth (displayPaths (loop m (initState sepf ps)) ! i) \<and>
     (\<not> shared (map (\<lambda>p. rev (split (sepf p) p)) ps)
           (depth (displayPaths (loop m (initState sepf ps)) ! i)) i \<or>
      depth (displayPaths (loop m (initState sepf ps)) ! i) = nat (max 1 m) \<or>
      depth (displayPaths (loop m (initState sepf ps)) ! i) =
        length (rev (split (sepf (ps ! i)) (ps ! i)))) \<and>
     (\<forall>d. 1 \<le> d \<and> d < depth (displayPaths (loop m (initState sepf ps)) ! i) \<longrightarrow>
        shared (map (\<lambda>p. rev (split (sepf p) p)) ps) d i \<and> d \<noteq> nat (max 1 m) \<and>
        d \<noteq> length (rev (split (sepf (ps ! i)) (ps ! i))))"
proof -
  let ?seps = "map sepf ps" and ?parts = "map (\<lambda>p. rev (split (sepf p) p)) ps"
  let ?P = "\<lambda>s. wf_state s \<and> fields_kept ?seps ?parts s \<and> minimal_inv ?parts s \<and>
                int (currentDepth s) \<le> max 1 m"
  let ?s = "loop m (initState sepf ps)"
  let ?d = "depth (displayPaths ?s ! i)"
  have init: "?P (initState sepf ps)"
    using wf_initState fields_kept_initState minimal_inv_initState
    by (simp add: initState_def)
  have step: "?P (loopBody s)" if "?P s" "int (currentDepth s) < m" "toProcess s \<noteq> []" for s
  proof -
    from that(1) have w: "wf_state s" and f: "fields_kept ?seps ?parts s"
      and q: "minimal_inv ?parts s" by blast+
    from f have mp: "map pathParts (displayPaths s) = ?parts" unfolding fields_kept_def by blast
    show ?thesis
      using wf_loopBody [OF w] fields_kept_loopBody [OF f] minimal_inv_loopBody [OF w mp q pk]
        that(2)
      by (simp add: currentDepth_loopBody)
  qed
  from loop_invariant [where P = ?P, OF init step]
  have inv: "?P ?s" and ex: "\<not> (int (currentDepth ?s) < m \<and> toProcess ?s \<noteq> [])" by blast+
  from inv have w: "wf_state ?s" and f: "fields_kept ?seps ?parts ?s"
    and q: "minimal_inv ?parts ?s" and c: "int (currentDepth ?s) \<le> max 1 m" by blast+
  from f have "map pathParts (displayPaths ?s) = ?parts" unfolding fields_kept_def by blast
  then have l: "length (displayPaths ?s) = length ps" by (metis length_map)
  have pi: "?parts ! i = rev (split (sepf (ps ! i)) (ps ! i))" using i by simp
  from w i l have d1: "1 \<le> ?d" and dc: "?d \<le> currentDepth ?s"
    unfolding wf_state_def by simp_all
  from dc c have dcap: "?d \<le> nat (max 1 m)" by simp
  show ?thesis
  proof (cases "i \<in> set (toProcess ?s)")
    case True
    then have "toProcess ?s \<noteq> []" by auto
    with ex have "m \<le> int (currentDepth ?s)" by simp
    moreover from w have "1 \<le> currentDepth ?s" unfolding wf_state_def by blast
    ultimately have cc: "currentDepth ?s = nat (max 1 m)" using c by simp
    from w True have dd: "?d = currentDepth ?s" unfolding wf_state_def by blast
    from q True have "\<forall>d. 1 \<le> d \<and> d < currentDepth ?s \<longrightarrow>
        shared ?parts d i \<and> d \<noteq> length (?parts ! i)"
      unfolding minimal_inv_def by blast
    then show ?thesis using d1 dd cc pi by auto
  next
    case False
    with q i have "(\<not> shared ?parts ?d i \<or> ?d = length (?parts ! i)) \<and>
        (\<forall>d. 1 \<le> d \<and> d < ?d \<longrightarrow> shared ?parts d i \<and> d \<noteq> length (?parts ! i))"
      unfolding minimal_inv_def by simp
    then show ?thesis using d1 dcap pi by auto
  qed
qed

lemma split_go_no_sep:
  "sep = [c] \<Longrightarrow> c \<notin> set acc \<Longrightarrow> \<forall>x \<in> set (split_go sep acc s). c \<notin> set x"
proof (induction sep acc s rule: split_go.induct)
  case (1 sep acc)
  then show ?case by simp
next
  case (2 sep acc a as)
  show ?case
  proof (cases "a = c")
    case True
    then show ?thesis using 2 by simp
  next
    case False
    then show ?thesis using 2 by simp
  qed
qed

lemma append_sep_eq:
  "c \<notin> set x \<Longrightarrow> c \<notin> set y \<Longrightarrow> x @ c # r = y @ c # r' \<Longrightarrow> x = y \<and> r = r'"
proof (induction x arbitrary: y)
  case Nil
  then show ?case by (cases y) auto
next
  case (Cons a x)
  then show ?case by (cases y) auto
qed

lemma join_inj:
  assumes "length xs = length ys" "\<forall>x \<in> set xs. c \<notin> set x" "\<forall>y \<in> set ys. c \<notin> set y"
    "join [c] xs = join [c] ys"
  shows "xs = ys"
  using assms
proof (induction xs ys rule: list_induct2)
  case Nil
  then show ?case by simp
next
  case (Cons x xs y ys)
  show ?case
  proof (cases "xs = []")
    case True
    then show ?thesis using Cons by simp
  next
    case False
    with Cons.hyps have "ys \<noteq> []" by auto
    with False Cons.prems(3) have "x @ c # join [c] xs = y @ c # join [c] ys"
      by (simp add: join_Cons)
    from append_sep_eq [OF _ _ this] Cons.prems have "x = y" "join [c] xs = join [c] ys"
      by simp_all
    with Cons.IH Cons.prems show ?thesis by simp
  qed
qed

lemma join_has_sep:
  assumes "2 \<le> length xs"
  shows "c \<in> set (join [c] xs)"
proof -
  from assms obtain x y zs where "xs = x # y # zs"
    by (cases xs; cases "tl xs") auto
  then show ?thesis by simp
qed

lemma inherited_no_slash: "k \<in> set objectPrototypeKeys \<Longrightarrow> CHR ''/'' \<notin> set k"
  by (auto simp: objectPrototypeKeys_def)

lemma plain_keys_posix:
  assumes sep: "\<forall>p \<in> set ps. sepf p = ''/''"
    and base: "\<forall>p \<in> set ps. last (split ''/'' p) \<notin> set objectPrototypeKeys"
  shows "plain_keys (map (\<lambda>p. rev (split (sepf p) p)) ps)"
proof -
  let ?parts = "map (\<lambda>p. rev (split (sepf p) p)) ps"
  have p: "?parts ! i = rev (split ''/'' (ps ! i))" if "i < length ps" for i
    using that sep by simp
  have ne: "split ''/'' q \<noteq> []" for q
    by (simp add: split_def split_go_nonempty)
  have ns: "\<forall>x \<in> set (split ''/'' q). CHR ''/'' \<notin> set x" for q
    using split_go_no_sep [of "''/''" "CHR ''/''" "[]" q] by (simp add: split_def)
  have a: "?parts ! i \<noteq> []" if "i < length ?parts" for i
    using that p ne by simp
  have b: "take d (?parts ! i) = take d (?parts ! j)"
    if "i < length ?parts" "j < length ?parts" "d \<le> length (?parts ! i)" "d \<le> length (?parts ! j)"
      "join ''/'' (take d (?parts ! i)) = join ''/'' (take d (?parts ! j))" for i j d
  proof (rule join_inj [of _ _ "CHR ''/''"])
    show "length (take d (?parts ! i)) = length (take d (?parts ! j))"
      using that(3,4) by simp
    show "\<forall>x \<in> set (take d (?parts ! i)). CHR ''/'' \<notin> set x"
      using that(1) p [of i] ns by (auto dest: in_set_takeD)
    show "\<forall>y \<in> set (take d (?parts ! j)). CHR ''/'' \<notin> set y"
      using that(2) p [of j] ns by (auto dest: in_set_takeD)
    show "join ''/'' (take d (?parts ! i)) = join ''/'' (take d (?parts ! j))"
      by (rule that(5))
  qed
  have c: "join ''/'' (take d (?parts ! i)) \<notin> set objectPrototypeKeys"
    if "i < length ?parts" "1 \<le> d" "d \<le> length (?parts ! i)" for i d
  proof (cases "d = 1")
    case True
    from that(1) have i: "i < length ps" by simp
    from ne [of "ps ! i"] have "take 1 (rev (split ''/'' (ps ! i))) = [last (split ''/'' (ps ! i))]"
      by (metis One_nat_def hd_rev rev_is_Nil_conv take_Suc take_eq_Nil2 list.collapse take0)
    then have "join ''/'' (take d (?parts ! i)) = last (split ''/'' (ps ! i))"
      using True p [OF i] by simp
    with base i show ?thesis by simp
  next
    case False
    with that have "2 \<le> length (take d (?parts ! i))" by simp
    from join_has_sep [OF this, of "CHR ''/''"] inherited_no_slash show ?thesis by blast
  qed
  show ?thesis unfolding plain_keys_def using a b c by blast
qed

lemma minimal_suffix_unless_inherited:
  assumes sep: "\<forall>p \<in> set ps. sepf p = ''/''"
    and base: "\<forall>p \<in> set ps. last (split ''/'' p) \<notin> set objectPrototypeKeys"
    and i: "i < length ps"
  shows "\<exists>d\<ge>1.
     computeDisplayPaths_default sepf ps ! i =
       join ''/'' (rev (take d (rev (split ''/'' (ps ! i))))) \<and>
     (\<not> shared (map (\<lambda>p. rev (split ''/'' p)) ps) d i \<or> d = 5 \<or>
      d = length (split ''/'' (ps ! i))) \<and>
     (\<forall>d'. 1 \<le> d' \<and> d' < d \<longrightarrow>
        shared (map (\<lambda>p. rev (split ''/'' p)) ps) d' i \<and> d' \<noteq> 5 \<and>
        d' \<noteq> length (split ''/'' (ps ! i)))"
proof -
  let ?d = "depth (displayPaths (loop 5 (initState sepf ps)) ! i)"
  have parts: "map (\<lambda>p. rev (split (sepf p) p)) ps = map (\<lambda>p. rev (split ''/'' p)) ps"
    using sep by simp
  from i sep have si: "sepf (ps ! i) = ''/''" by simp
  note m = minimal_depth [OF plain_keys_posix [OF sep base] i, of 5, unfolded parts si]
  have "computeDisplayPaths_default sepf ps ! i =
          join ''/'' (rev (take ?d (rev (split ''/'' (ps ! i)))))"
    unfolding computeDisplayPaths_default_def computeDisplayPaths_depth [OF i] si
    by (simp add: rev_take)
  with m show ?thesis by (intro exI [of _ ?d]) simp
qed

subsection \<open>The specified properties\<close>

text \<open>
  C1: with the default cap of 5, \<open>computeDisplayPaths\<close> is to give each path its
  shortest suffix of whole segments that no other path of the list shares. For a path
  whose last segment is a property name of \<open>Object.prototype\<close> it does not: the
  read \<open>seenCount[path]\<close> finds the inherited property, the count becomes \<open>NaN\<close>
  and never 1, and the suffix gets a second segment although the path is alone in the
  list. A last segment that is no such name gives the one-segment suffix; on lists of
  POSIX paths without such last segments the result is the shortest suffix that is not
  shared, up to the cap and the length of the path
  (\<open>minimal_suffix_unless_inherited\<close>).
\<close>

theorem inherited_name_is_extended:
  "computeDisplayPaths_default posixSeparatorFor [''/a/constructor''] = [''a/constructor''] \<and>
   computeDisplayPaths_default posixSeparatorFor [''/a/index.js''] = [''index.js'']"
  by code_simp




text \<open>
  C8: for every list and every \<open>maxDepth\<close> the result has the length of the input,
  and the display path at each position is a suffix, of one segment at least, of the
  segments of the path at that position, joined with the separator of that path.
\<close>

theorem display_paths_are_suffixes:
  "length (computeDisplayPaths sepf ps m) = length ps \<and>
   (\<forall>i < length ps. \<exists>d\<ge>1. computeDisplayPaths sepf ps m ! i =
      join (sepf (ps ! i))
        (drop (length (split (sepf (ps ! i)) (ps ! i)) - d) (split (sepf (ps ! i)) (ps ! i))))"
proof (cases ps)
  case Nil
  have "loop m (initState sepf []) = initState sepf []"
    by (subst loop.simps) (simp add: initState_def)
  then show ?thesis using Nil by (simp add: computeDisplayPaths_def initState_def)
next
  case (Cons p ps')
  then have "0 < length ps" by simp
  from computeDisplayPaths_nth [OF this, of sepf m] computeDisplayPaths_nth [of _ ps sepf m]
  show ?thesis by blast
qed

theorem display_paths_are_suffixes_witness:
  "length (computeDisplayPaths posixSeparatorFor [''/a/b/c.js'', ''/a/d/c.js''] 5) = 2 \<and>
   (\<exists>d\<ge>1. computeDisplayPaths posixSeparatorFor [''/a/b/c.js'', ''/a/d/c.js''] 5 ! 1 =
      join ''/'' (drop (length (split ''/'' ''/a/d/c.js'') - d) (split ''/'' ''/a/d/c.js'')))"
proof -
  note t = display_paths_are_suffixes [of posixSeparatorFor "[''/a/b/c.js'', ''/a/d/c.js'']" 5]
  from t have "length (computeDisplayPaths posixSeparatorFor [''/a/b/c.js'', ''/a/d/c.js''] 5) = 2"
    by simp
  moreover from t [THEN conjunct2, rule_format, of 1]
  have "\<exists>d\<ge>1. computeDisplayPaths posixSeparatorFor [''/a/b/c.js'', ''/a/d/c.js''] 5 ! 1 =
      join ''/'' (drop (length (split ''/'' ''/a/d/c.js'') - d) (split ''/'' ''/a/d/c.js''))"
    by (simp add: posixSeparatorFor_def)
  ultimately show ?thesis by (rule conjI)
qed

text \<open>
  C9, as the code has it: the loop ends on every input after at most \<open>maxDepth - 1\<close>
  rounds (none for \<open>maxDepth\<close> below 2); a path to process whose depth has reached
  the number of its segments is marked done in the round; and a path that occurs twice
  in the list is shown with its last \<open>maxDepth\<close> segments (one segment for
  \<open>maxDepth\<close> below 1), which is the entire path only when the path has no more
  segments than \<open>maxDepth\<close>.
\<close>

theorem duplicates_capped:
  assumes "i < length ps" "j < length ps" "i \<noteq> j" "ps ! i = ps ! j"
  shows
    "(\<exists>n. loop m (initState sepf ps) = (loopBody ^^ n) (initState sepf ps) \<and>
          int n \<le> max 0 (m - 1)) \<and>
     (let s = (loopBody ^^ k) (initState sepf ps)
      in i \<in> set (toProcess s) \<and>
         depth (displayPaths s ! i) = length (pathParts (displayPaths s ! i)) \<longrightarrow>
           isDone (displayPaths (loopBody s) ! i) \<and> i \<notin> set (toProcess (loopBody s))) \<and>
     computeDisplayPaths sepf ps m ! i =
       join (sepf (ps ! i))
         (drop (length (split (sepf (ps ! i)) (ps ! i)) - nat (max 1 m))
               (split (sepf (ps ! i)) (ps ! i))) \<and>
     (int (length (split (sepf (ps ! i)) (ps ! i))) \<le> m \<longrightarrow>
        computeDisplayPaths sepf ps m ! i = ps ! i)"
proof -
  note b = loop_rounds_bound [of m sepf ps]
  note r = round_step [OF refl assms(1), of k sepf]
  note d = duplicate_display [OF assms, of sepf m]
  have "computeDisplayPaths sepf ps m ! i = ps ! i"
    if "int (length (split (sepf (ps ! i)) (ps ! i))) \<le> m"
  proof -
    from that have "length (split (sepf (ps ! i)) (ps ! i)) - nat (max 1 m) = 0" by simp
    then show ?thesis unfolding d by (simp add: join_split)
  qed
  with b r d show ?thesis unfolding Let_def by blast
qed

theorem duplicates_capped_witness:
  "computeDisplayPaths posixSeparatorFor [''/x/a.js'', ''/y/b.js'', ''/x/a.js''] 5 ! 0 = ''/x/a.js''"
proof -
  let ?ps = "[''/x/a.js'', ''/y/b.js'', ''/x/a.js'']"
  have h: "0 < length ?ps" "2 < length ?ps" "(0::nat) \<noteq> 2" "?ps ! 0 = ?ps ! 2" by simp_all
  have l: "int (length (split (posixSeparatorFor (?ps ! 0)) (?ps ! 0))) \<le> 5" by code_simp
  have p: "?ps ! 0 = ''/x/a.js''" by simp
  note t = duplicates_capped [OF h, of 5 posixSeparatorFor 0,
      THEN conjunct2, THEN conjunct2, THEN conjunct2, THEN mp, OF l]
  show ?thesis using t unfolding p .
qed

text \<open>
  A path of six segments that occurs twice is cut at the default cap of five segments:
  the display path is not the entire path.
\<close>

theorem duplicates_entire_path_counterexample:
  "computeDisplayPaths_default posixSeparatorFor [''/a/b/c/d/e'', ''/a/b/c/d/e''] =
     [''a/b/c/d/e'', ''a/b/c/d/e''] \<and>
   ''a/b/c/d/e'' \<noteq> ''/a/b/c/d/e''"
  by code_simp

section \<open>Properties of \<open>ChangedFilesList.render\<close>\<close>

lemma collect_map_Inr:
  "(\<And>x. x \<in> set xs \<Longrightarrow> f x = Inr (g x)) \<Longrightarrow> collect (map f xs) = Inr (map g xs)"
  by (induction xs) auto

lemma mset_insertBy: "mset (insertBy cmp x xs) = add_mset x (mset xs)"
  by (induction xs) auto

lemma mset_sortBy: "mset (sortBy cmp xs) = mset xs"
  by (induction xs) (auto simp: sortBy_def mset_insertBy)

lemma fileChange_key:
  assumes "filePath \<in> fst ` set (fileStatuses props)"
  shows "\<exists>c. fileChange props isHgRoot filePath dp = Inr c \<and> cf_filePath c = filePath"
proof -
  from assms obtain st where "map_of (fileStatuses props) filePath = Some st"
    by (metis domD dom_map_of_conv_image_fst)
  then show ?thesis by (simp add: fileChange_def)
qed

lemma collect_changes:
  assumes "set filePaths \<subseteq> K"
    and "\<And>k x. k \<in> K \<Longrightarrow> \<exists>c. f k x = Inr c \<and> cf_filePath c = k"
  shows "\<exists>cs. collect (map (\<lambda>(k, x). f k x) (zip filePaths xs)) = Inr cs \<and>
              map cf_filePath cs = take (length xs) filePaths"
  using assms(1)
proof (induction filePaths arbitrary: xs)
  case Nil
  then show ?case by simp
next
  case (Cons k ks)
  show ?case
  proof (cases xs)
    case Nil
    then show ?thesis by simp
  next
    case (Cons x xs')
    from Cons.prems have "k \<in> K" and "set ks \<subseteq> K" by auto
    from assms(2) [OF \<open>k \<in> K\<close>, of x] obtain c where c: "f k x = Inr c" "cf_filePath c = k"
      by blast
    from Cons.IH [OF \<open>set ks \<subseteq> K\<close>, of xs'] obtain cs where
      cs: "collect (map (\<lambda>(k, x). f k x) (zip ks xs')) = Inr cs"
          "map cf_filePath cs = take (length xs') ks" by blast
    show ?thesis using c cs Cons by simp
  qed
qed

lemma collect_changes_upt:
  assumes "set filePaths \<subseteq> K"
    and "\<And>k x. k \<in> K \<Longrightarrow> \<exists>c. f k x = Inr c \<and> cf_filePath c = k"
  shows "\<exists>cs. collect (map (\<lambda>(k, x). f k x) (zip filePaths [0..<length filePaths])) = Inr cs \<and>
              map cf_filePath cs = filePaths"
  using collect_changes [OF assms, where xs = "[0..<length filePaths]"] by simp

lemma render_Some:
  assumes "\<not> (fileStatuses props = [] \<and> hideEmptyFolders props)"
  shows "\<exists>v. render sepf bn lc hg props st = Inr (Some v) \<and>
     mset (map cf_filePath (changedFiles v)) =
        mset (take (FILE_CHANGES_INITIAL_PAGE_SIZE * visiblePagesCount st) (map fst (fileStatuses props))) \<and>
     collapsed v = isCollapsed st \<and>
     showMoreFilesElement v =
       (if length (fileStatuses props) > FILE_CHANGES_INITIAL_PAGE_SIZE * visiblePagesCount st
        then Some showMoreOnClick else None)"
proof -
  let ?n = "FILE_CHANGES_INITIAL_PAGE_SIZE * visiblePagesCount st"
  let ?fp = "take ?n (map fst (fileStatuses props))"
  let ?dps = "computeDisplayPaths_default sepf ?fp"
  have sub: "set ?fp \<subseteq> fst ` set (fileStatuses props)"
    using set_take_subset [of ?n "map fst (fileStatuses props)"] by auto
  from collect_changes_upt [where f = "\<lambda>k x. fileChange props (hg (rootPath props)) k (?dps ! x)",
      OF sub fileChange_key]
  obtain cs where cs:
    "collect (map (\<lambda>(filePath, index). fileChange props (hg (rootPath props)) filePath (?dps ! index))
        (zip ?fp [0..<length ?fp])) = Inr cs"
    "map cf_filePath cs = ?fp" by blast
  have m: "mset (map cf_filePath (sortBy cmp cs)) = mset ?fp" for cmp
    using cs(2) by (metis mset_map mset_sortBy)
  have "render sepf bn lc hg props st =
     Inr (Some \<lparr>collapsed = isCollapsed st,
                  folderName =
                    (if shouldShowFolderName props then Some (bn (rootPath props)) else None),
                  changedFiles =
                    sortBy (\<lambda>change1 change2. lc (bn (cf_filePath change1)) (bn (cf_filePath change2))) cs,
                  showMoreFilesElement =
                    (if length (fileStatuses props) > ?n then Some showMoreOnClick else None)\<rparr>)"
    using assms unfolding render_def Let_def cs(1) by simp
  then show ?thesis using m by simp
qed

lemma render_None_iff:
  "render sepf bn lc hg props st = Inr None \<longleftrightarrow> fileStatuses props = [] \<and> hideEmptyFolders props"
proof (cases "fileStatuses props = [] \<and> hideEmptyFolders props")
  case True
  then show ?thesis by (simp add: render_def)
next
  case False
  from render_Some [OF False, of sepf bn lc hg st] show ?thesis using False by auto
qed

text \<open>
  C5: \<open>render\<close> paginates. Whenever it renders the list, it renders at most
  \<open>FILE_CHANGES_INITIAL_PAGE_SIZE\<close> (100) times \<open>visiblePagesCount\<close> files, namely
  the first that many keys of \<open>fileStatuses\<close> in the order of the map (arranged by
  base name for display); the control for more files is there exactly when the size of
  the map exceeds that count, and its handler adds one to \<open>visiblePagesCount\<close>.
\<close>

theorem render_paginates:
  assumes "\<not> (fileStatuses props = [] \<and> hideEmptyFolders props)"
  shows "\<exists>v. render sepf bn lc hg props st = Inr (Some v) \<and>
     FILE_CHANGES_INITIAL_PAGE_SIZE = 100 \<and>
     length (changedFiles v) \<le> 100 * visiblePagesCount st \<and>
     mset (map cf_filePath (changedFiles v)) =
       mset (take (100 * visiblePagesCount st) (map fst (fileStatuses props))) \<and>
     (showMoreFilesElement v \<noteq> None \<longleftrightarrow>
        length (fileStatuses props) > 100 * visiblePagesCount st) \<and>
     (\<forall>onClick st'. showMoreFilesElement v = Some onClick \<longrightarrow>
        visiblePagesCount (onClick st') = visiblePagesCount st' + 1)"
proof -
  from render_Some [OF assms, of sepf bn lc hg st] obtain v where
    v: "render sepf bn lc hg props st = Inr (Some v)"
       "mset (map cf_filePath (changedFiles v)) =
          mset (take (FILE_CHANGES_INITIAL_PAGE_SIZE * visiblePagesCount st)
                 (map fst (fileStatuses props)))"
       "showMoreFilesElement v =
          (if length (fileStatuses props) > FILE_CHANGES_INITIAL_PAGE_SIZE * visiblePagesCount st
           then Some showMoreOnClick else None)"
    by blast
  have "size (mset (map cf_filePath (changedFiles v))) \<le>
          FILE_CHANGES_INITIAL_PAGE_SIZE * visiblePagesCount st"
    unfolding v(2) by simp
  then have len: "length (changedFiles v) \<le> FILE_CHANGES_INITIAL_PAGE_SIZE * visiblePagesCount st"
    by simp
  have click: "visiblePagesCount (showMoreOnClick st') = visiblePagesCount st' + 1" for st'
    by (simp add: showMoreOnClick_def)
  show ?thesis
    using v len click by (auto simp: FILE_CHANGES_INITIAL_PAGE_SIZE_def split: if_splits)
qed

theorem render_paginates_witness:
  "\<exists>v. render (\<lambda>_. ''/'') (\<lambda>p. last (split ''/'' p)) (\<lambda>a b. int (length a) - int (length b))
          (\<lambda>_. True)
          \<lparr>checkedFiles = None,
           fileStatuses = map (\<lambda>i. (''/d/'' @ replicate i CHR ''a'', 1)) [0..<101],
           generatedTypes = None, hideEmptyFolders = True, rootPath = ''/d'',
           selectedFile = None, shouldShowFolderName = True\<rparr>
          initialState = Inr (Some v) \<and>
       length (changedFiles v) \<le> 100 \<and> showMoreFilesElement v \<noteq> None"
  using render_paginates [of
      "\<lparr>checkedFiles = None,
        fileStatuses = map (\<lambda>i. (''/d/'' @ replicate i CHR ''a'', 1)) [0..<101],
        generatedTypes = None, hideEmptyFolders = True, rootPath = ''/d'',
        selectedFile = None, shouldShowFolderName = True\<rparr>"
      "\<lambda>_. ''/''" "\<lambda>p. last (split ''/'' p)" "\<lambda>a b. int (length a) - int (length b)"
      "\<lambda>_. True" initialState]
  by (simp add: initialState_def, blast)

text \<open>
  C10: \<open>render\<close> returns \<open>null\<close> exactly when \<open>fileStatuses\<close> is empty and
  \<open>hideEmptyFolders\<close> is true; with \<open>hideEmptyFolders\<close> false, an empty map still
  renders the list, with no file and no control for more files.
\<close>

theorem render_null_iff:
  "(render sepf bn lc hg props st = Inr None \<longleftrightarrow>
      length (fileStatuses props) = 0 \<and> hideEmptyFolders props) \<and>
   (length (fileStatuses props) = 0 \<and> \<not> hideEmptyFolders props \<longrightarrow>
      (\<exists>v. render sepf bn lc hg props st = Inr (Some v) \<and>
           changedFiles v = [] \<and> showMoreFilesElement v = None))"
proof (cases "fileStatuses props = [] \<and> hideEmptyFolders props")
  case True
  then show ?thesis by (simp add: render_def)
next
  case False
  from render_Some [OF False, of sepf bn lc hg st] obtain v where
    v: "render sepf bn lc hg props st = Inr (Some v)"
       "mset (map cf_filePath (changedFiles v)) =
          mset (take (FILE_CHANGES_INITIAL_PAGE_SIZE * visiblePagesCount st)
                 (map fst (fileStatuses props)))"
       "showMoreFilesElement v =
          (if length (fileStatuses props) > FILE_CHANGES_INITIAL_PAGE_SIZE * visiblePagesCount st
           then Some showMoreOnClick else None)"
    by blast
  have "fileStatuses props = [] \<Longrightarrow> changedFiles v = []"
    using v(2) by simp
  then show ?thesis using False v(1) v(3) by auto
qed

theorem render_null_iff_witness:
  "render (\<lambda>_. ''/'') id (\<lambda>a b. 0) (\<lambda>_. True)
      \<lparr>checkedFiles = None, fileStatuses = [], generatedTypes = None,
       hideEmptyFolders = True, rootPath = ''/d'', selectedFile = None,
       shouldShowFolderName = True\<rparr> initialState = Inr None \<and>
   (\<exists>v. render (\<lambda>_. ''/'') id (\<lambda>a b. 0) (\<lambda>_. True)
      \<lparr>checkedFiles = None, fileStatuses = [], generatedTypes = None,
       hideEmptyFolders = False, rootPath = ''/d'', selectedFile = None,
       shouldShowFolderName = True\<rparr> initialState = Inr (Some v) \<and> changedFiles v = [])"
  using render_null_iff [of "\<lambda>_. ''/''" id "\<lambda>a b. 0" "\<lambda>_. True"
      "\<lparr>checkedFiles = None, fileStatuses = [], generatedTypes = None,
       hideEmptyFolders = True, rootPath = ''/d'', selectedFile = None,
       shouldShowFolderName = True\<rparr>" initialState]
    render_null_iff [of "\<lambda>_. ''/''" id "\<lambda>a b. 0" "\<lambda>_. True"
      "\<lparr>checkedFiles = None, fileStatuses = [], generatedTypes = None,
       hideEmptyFolders = False, rootPath = ''/d'', selectedFile = None,
       shouldShowFolderName = True\<rparr>" initialState]
  by auto

section \<open>Properties of \<open>createRemoteConnection\<close>\<close>

text \<open>
  C4: \<open>createRemoteConnection\<close> first calls \<open>RemoteConnection.reconnect\<close> with the
  saved host and path. A connection it yields is returned. When it yields \<open>null\<close>
  and \<open>promptReconnectOnFailure\<close> is \<open>false\<close>, the result is \<open>null\<close> and no dialog
  is opened. Otherwise the result is that of the connection dialog, opened with the
  saved host and path.
\<close>

theorem createRemoteConnection_reconnect_or_prompt:
  "let h = host cfg; p = path cfg; t = displayTitle cfg;
       prompt = (promptReconnectOnFailure cfg \<noteq> Some False);
       options = \<lparr>initialServer = h, initialCwd = p\<rparr>;
       result = createRemoteConnection reconnect dialog cfg
   in hd (snd result) = Reconnect h p t prompt \<and>
      (\<forall>c. reconnect h p t prompt = Inr (Some c) \<longrightarrow>
           result = (Inr (Some c), [Reconnect h p t prompt])) \<and>
      (reconnect h p t prompt = Inr None \<and> promptReconnectOnFailure cfg = Some False \<longrightarrow>
           result = (Inr None, [Reconnect h p t prompt])) \<and>
      (reconnect h p t prompt = Inr None \<and> promptReconnectOnFailure cfg \<noteq> Some False \<longrightarrow>
           result = (dialog options, [Reconnect h p t prompt, OpenConnectionDialog options]))"
proof -
  have p: "(case promptReconnectOnFailure cfg of None \<Rightarrow> True | Some b \<Rightarrow> b) =
           (promptReconnectOnFailure cfg \<noteq> Some False)"
    by (cases "promptReconnectOnFailure cfg") auto
  show ?thesis
    unfolding createRemoteConnection_def Let_def p
    by (auto split: sum.splits option.splits)
qed

theorem createRemoteConnection_reconnect_or_prompt_witness:
  "createRemoteConnection (\<lambda>h p t b. Inr (Some (1::nat))) (\<lambda>opts. Inr (Some 2))
      \<lparr>host = ''dev'', path = ''/home/me'', displayTitle = ''dev'',
       promptReconnectOnFailure = None\<rparr>
     = (Inr (Some 1), [Reconnect ''dev'' ''/home/me'' ''dev'' True]) \<and>
   createRemoteConnection (\<lambda>h p t b. Inr None) (\<lambda>opts. Inr (Some (2::nat)))
      \<lparr>host = ''dev'', path = ''/home/me'', displayTitle = ''dev'',
       promptReconnectOnFailure = Some False\<rparr>
     = (Inr None, [Reconnect ''dev'' ''/home/me'' ''dev'' False]) \<and>
   createRemoteConnection (\<lambda>h p t b. Inr None) (\<lambda>opts. Inr (Some (2::nat)))
      \<lparr>host = ''dev'', path = ''/home/me'', displayTitle = ''dev'',
       promptReconnectOnFailure = None\<rparr>
     = (Inr (Some 2), [Reconnect ''dev'' ''/home/me'' ''dev'' True,
          OpenConnectionDialog \<lparr>initialServer = ''dev'', initialCwd = ''/home/me''\<rparr>])"
  using createRemoteConnection_reconnect_or_prompt [of
      "\<lparr>host = ''dev'', path = ''/home/me'', displayTitle = ''dev'',
        promptReconnectOnFailure = None\<rparr>"
      "\<lambda>h p t b. Inr (Some (1::nat))" "\<lambda>opts. Inr (Some 2)"]
    createRemoteConnection_reconnect_or_prompt [of
      "\<lparr>host = ''dev'', path = ''/home/me'', displayTitle = ''dev'',
        promptReconnectOnFailure = Some False\<rparr>"
      "\<lambda>h p t b. Inr None" "\<lambda>opts. Inr (Some (2::nat))"]
    createRemoteConnection_reconnect_or_prompt [of
      "\<lparr>host = ''dev'', path = ''/home/me'', displayTitle = ''dev'',
        promptReconnectOnFailure = None\<rparr>"
      "\<lambda>h p t b. Inr None" "\<lambda>opts. Inr (Some (2::nat))"]
  by (simp add: Let_def)

section \<open>Properties of \<open>serverStatusUpdatesToBusyMessages\<close>\<close>

lemma map_of_dispose:
  "map_of (filter (\<lambda>(i, _). i \<noteq> d) xs) k = (if k = d then None else map_of xs k)"
  by (induction xs) auto

lemma map_of_snoc:
  "map_of (xs @ [(n, t)]) k =
     (case map_of xs k of Some v \<Rightarrow> Some v | None \<Rightarrow> if k = n then Some t else None)"
  by (induction xs) auto

lemma fresh_ids_unsubscribeInner: "fresh_ids s \<Longrightarrow> fresh_ids (unsubscribeInner s root)"
  unfolding fresh_ids_def unsubscribeInner_def dispose_def
  by (cases "inner s root") (auto split: if_splits)

lemma inner_unsubscribeInner:
  "inner (unsubscribeInner s root) r = (if r = root then None else inner s r)"
  by (cases "inner s root") (auto simp: unsubscribeInner_def)

lemma nextId_unsubscribeInner:
  "nextId (busySignal (unsubscribeInner s root)) = nextId (busySignal s)"
  by (cases "inner s root") (auto simp: unsubscribeInner_def dispose_def)

lemma messageFor_unsubscribeInner:
  assumes "fresh_ids s"
  shows "messageFor (unsubscribeInner s root) r = (if r = root then None else messageFor s r)"
proof (cases "inner s root")
  case None
  then show ?thesis by (simp add: unsubscribeInner_def messageFor_def)
next
  case (Some d)
  show ?thesis
  proof (cases "inner s r")
    case None
    then show ?thesis using Some by (simp add: unsubscribeInner_def messageFor_def)
  next
    case (Some d')
    with \<open>inner s root = Some d\<close> assms have "r \<noteq> root \<Longrightarrow> d' \<noteq> d"
      unfolding fresh_ids_def by blast
    then show ?thesis using Some \<open>inner s root = Some d\<close>
      by (simp add: unsubscribeInner_def messageFor_def dispose_def map_of_dispose)
  qed
qed

lemma fresh_ids_onStatusUpdate:
  assumes "fresh_ids s"
  shows "fresh_ids (onStatusUpdate disp s u)"
proof -
  let ?s1 = "unsubscribeInner s (pathToRoot u)"
  have f1: "fresh_ids ?s1" using assms by (rule fresh_ids_unsubscribeInner)
  show ?thesis
  proof (cases "status u = ''init'' \<or> status u = ''busy''")
    case False
    then show ?thesis using f1 by (simp add: onStatusUpdate_def Let_def)
  next
    case True
    then show ?thesis using f1
      unfolding onStatusUpdate_def Let_def reportBusy_def fresh_ids_def
      by (auto simp: less_Suc_eq split: if_splits) 
  qed
qed

lemma messageFor_onStatusUpdate:
  assumes "fresh_ids s"
  shows "messageFor (onStatusUpdate disp s u) r =
     (if r = pathToRoot u
      then (if status u = ''init'' \<or> status u = ''busy'' then Some (busyTitle disp u) else None)
      else messageFor s r)"
proof -
  let ?s1 = "unsubscribeInner s (pathToRoot u)"
  have f1: "fresh_ids ?s1" using assms by (rule fresh_ids_unsubscribeInner)
  note m1 = messageFor_unsubscribeInner [OF assms, of "pathToRoot u" r]
  show ?thesis
  proof (cases "status u = ''init'' \<or> status u = ''busy''")
    case False
    then show ?thesis using m1 by (simp add: onStatusUpdate_def Let_def)
  next
    case True
    have nofresh: "map_of (shown (busySignal ?s1)) (nextId (busySignal ?s1)) = None"
      using f1 unfolding fresh_ids_def
      by (metis less_irrefl map_of_eq_None_iff)
    have old: "inner ?s1 r = Some d \<Longrightarrow> d \<noteq> nextId (busySignal ?s1)" for d
      using f1 unfolding fresh_ids_def by (metis less_irrefl)
    show ?thesis
    proof (cases "r = pathToRoot u")
      case True
      then show ?thesis using \<open>status u = ''init'' \<or> status u = ''busy''\<close> nofresh
        by (simp add: onStatusUpdate_def Let_def reportBusy_def messageFor_def map_add_def)
    next
      case False
      then show ?thesis using \<open>status u = ''init'' \<or> status u = ''busy''\<close> m1 old
        by (auto simp: onStatusUpdate_def Let_def reportBusy_def messageFor_def map_add_def
            split: option.splits)
    qed
  qed
qed

lemma lastStatus_snoc:
  "lastStatus (us @ [u]) root = (if pathToRoot u = root then Some (status u) else lastStatus us root)"
  by (induction us) auto

lemma run_invariant:
  assumes "\<forall>i \<in> fst ` set (shown b). i < nextId b"
  shows "fresh_ids (serverStatusUpdatesToBusyMessages disp us b) \<and>
     (\<forall>root. messageFor (serverStatusUpdatesToBusyMessages disp us b) root =
        (case lastStatus us root of
           None \<Rightarrow> None
         | Some st \<Rightarrow>
             if st = ''init'' then Some (''Flow server is initializing ('' @ disp root @ '')'')
             else if st = ''busy'' then Some (''Flow server is busy ('' @ disp root @ '')'')
             else None))"
proof (induction us rule: rev_induct)
  case Nil
  then show ?case using assms
    by (simp add: serverStatusUpdatesToBusyMessages_def subscribed_def fresh_ids_def messageFor_def)
next
  case (snoc u us)
  let ?s = "serverStatusUpdatesToBusyMessages disp us b"
  have step: "serverStatusUpdatesToBusyMessages disp (us @ [u]) b = onStatusUpdate disp ?s u"
    by (simp add: serverStatusUpdatesToBusyMessages_def)
  from snoc have f: "fresh_ids ?s" by blast
  show ?case
    unfolding step
    using snoc fresh_ids_onStatusUpdate [OF f] 
    by (auto simp: messageFor_onStatusUpdate [OF f] lastStatus_snoc busyTitle_def)
qed

lemma other_status:
  assumes "status u \<noteq> ''init''" "status u \<noteq> ''busy''"
  shows "inner (onStatusUpdate disp s u) (pathToRoot u) = None \<and>
         nextId (busySignal (onStatusUpdate disp s u)) = nextId (busySignal s) \<and>
         set (shown (busySignal (onStatusUpdate disp s u))) \<subseteq> set (shown (busySignal s))"
  using assms
  by (cases "inner s (pathToRoot u)")
     (auto simp: onStatusUpdate_def Let_def unsubscribeInner_def dispose_def)

lemma nextId_onStatusUpdate:
  "nextId (busySignal (onStatusUpdate disp s u)) =
     (if status u = ''init'' \<or> status u = ''busy'' then nextId (busySignal s) + 1
      else nextId (busySignal s))"
  by (simp add: onStatusUpdate_def Let_def reportBusy_def nextId_unsubscribeInner)

lemma inner_onStatusUpdate:
  "inner (onStatusUpdate disp s u) r =
     (if r = pathToRoot u
      then (if status u = ''init'' \<or> status u = ''busy'' then Some (nextId (busySignal s)) else None)
      else inner s r)"
  by (simp add: onStatusUpdate_def Let_def reportBusy_def nextId_unsubscribeInner
      inner_unsubscribeInner)

lemma shown_unsubscribeInner:
  "shown (busySignal (unsubscribeInner s root)) =
     filter (\<lambda>(i, _). Some i \<noteq> inner s root) (shown (busySignal s))"
  by (cases "inner s root") (auto simp: unsubscribeInner_def dispose_def intro: filter_cong)

lemma shown_onStatusUpdate:
  "shown (busySignal (onStatusUpdate disp s u)) =
     filter (\<lambda>(i, _). Some i \<noteq> inner s (pathToRoot u)) (shown (busySignal s)) @
     (if status u = ''init'' \<or> status u = ''busy''
      then [(nextId (busySignal s), busyTitle disp u)] else [])"
  by (simp add: onStatusUpdate_def Let_def reportBusy_def nextId_unsubscribeInner
      shown_unsubscribeInner)

lemma dom_inner_onStatusUpdate:
  "dom (inner (onStatusUpdate disp s u)) =
     (if status u = ''init'' \<or> status u = ''busy'' then insert (pathToRoot u) (dom (inner s))
      else dom (inner s) - {pathToRoot u})"
  by (auto simp: inner_onStatusUpdate dom_def)

lemma activeRoots_snoc:
  "activeRoots (us @ [u]) =
     (if status u = ''init'' \<or> status u = ''busy'' then insert (pathToRoot u) (activeRoots us)
      else activeRoots us - {pathToRoot u})"
  by (auto simp: activeRoots_def lastStatus_snoc)

lemma old_shown_onStatusUpdate:
  assumes "\<forall>r d. inner s r = Some d \<longrightarrow> n0 \<le> d" "n0 \<le> nextId (busySignal s)"
  shows "filter (\<lambda>(i, _). i < n0) (shown (busySignal (onStatusUpdate disp s u))) =
         filter (\<lambda>(i, _). i < n0) (shown (busySignal s))"
proof -
  have "filter (\<lambda>(i, _). i < n0) (filter (\<lambda>(i, _). Some i \<noteq> inner s (pathToRoot u)) xs) =
        filter (\<lambda>(i, _). i < n0) xs" for xs :: "(nat \<times> string) list"
    unfolding filter_filter
    by (rule filter_cong [OF refl]) (use assms(1) in \<open>auto simp: not_le [symmetric]\<close>)
  then show ?thesis using assms(2) by (simp add: shown_onStatusUpdate)
qed

lemma tracked_onStatusUpdate:
  assumes f: "fresh_ids s" and t: "tracked n0 s"
  shows "tracked n0 (onStatusUpdate disp s u)"
proof -
  let ?r0 = "pathToRoot u"
  let ?s' = "onStatusUpdate disp s u"
  let ?D = "dom (inner s)"
  let ?g = "\<lambda>r. (the (inner s r), the (messageFor s r))"
  let ?g' = "\<lambda>r. (the (inner ?s' r), the (messageFor ?s' r))"
  let ?n = "nextId (busySignal s)"
  let ?own = "filter (\<lambda>(i, _). n0 \<le> i)"
  let ?P = "\<lambda>(i :: nat, _ :: string). Some i \<noteq> inner s ?r0"
  let ?busy = "status u = ''init'' \<or> status u = ''busy''"
  from t have n0: "n0 \<le> ?n" and fin: "finite ?D"
    and ge: "\<And>r d. inner s r = Some d \<Longrightarrow> n0 \<le> d"
    and k: "mset (?own (shown (busySignal s))) = image_mset ?g (mset_set ?D)"
    unfolding tracked_def by blast+
  from f have inj: "\<And>r r' d. inner s r = Some d \<Longrightarrow> inner s r' = Some d \<Longrightarrow> r = r'"
    unfolding fresh_ids_def by blast
  have sel: "{r \<in> ?D. ?P (?g r)} = ?D - {?r0}"
  proof (rule set_eqI)
    fix r
    show "r \<in> {r \<in> ?D. ?P (?g r)} \<longleftrightarrow> r \<in> ?D - {?r0}"
    proof (cases "inner s r")
      case None
      then show ?thesis by (simp add: dom_def)
    next
      case (Some d)
      then show ?thesis using inj [OF Some, of ?r0] by (auto simp: dom_def)
    qed
  qed
  have a: "mset (filter ?P (?own (shown (busySignal s)))) = image_mset ?g (mset_set (?D - {?r0}))"
  proof -
    have "mset (filter ?P (?own (shown (busySignal s)))) =
          filter_mset ?P (image_mset ?g (mset_set ?D))"
      using k by (metis mset_filter)
    also have "\<dots> = image_mset ?g (filter_mset (\<lambda>r. ?P (?g r)) (mset_set ?D))"
      by (rule filter_mset_image_mset)
    also have "filter_mset (\<lambda>r. ?P (?g r)) (mset_set ?D) = mset_set {r \<in> ?D. ?P (?g r)}"
      using fin by (rule filter_mset_mset_set)
    finally show ?thesis unfolding sel .
  qed
  have b: "image_mset ?g (mset_set (?D - {?r0})) = image_mset ?g' (mset_set (?D - {?r0}))"
  proof (rule image_mset_cong)
    fix r assume "r \<in># mset_set (?D - {?r0})"
    then have "r \<noteq> ?r0" using fin by simp
    then show "?g r = ?g' r"
      by (simp add: inner_onStatusUpdate messageFor_onStatusUpdate [OF f])
  qed
  have own': "?own (shown (busySignal ?s')) =
      filter ?P (?own (shown (busySignal s))) @
      (if ?busy then [(?n, busyTitle disp u)] else [])"
    using n0 unfolding shown_onStatusUpdate filter_append filter_filter
    by (auto intro: filter_cong)
  have m: "mset (?own (shown (busySignal ?s'))) = image_mset ?g' (mset_set (dom (inner ?s')))"
  proof (cases ?busy)
    case True
    have g0: "?g' ?r0 = (?n, busyTitle disp u)"
      using True by (simp add: inner_onStatusUpdate messageFor_onStatusUpdate [OF f])
    have "dom (inner ?s') = insert ?r0 (?D - {?r0})"
      using True by (auto simp: dom_inner_onStatusUpdate)
    moreover have "mset_set (insert ?r0 (?D - {?r0})) = add_mset ?r0 (mset_set (?D - {?r0}))"
      by (rule mset_set.insert) (use fin in simp_all)
    ultimately have "image_mset ?g' (mset_set (dom (inner ?s'))) =
        add_mset (?n, busyTitle disp u) (image_mset ?g' (mset_set (?D - {?r0})))"
      using g0 by simp
    moreover have "mset (?own (shown (busySignal ?s'))) =
        add_mset (?n, busyTitle disp u) (image_mset ?g' (mset_set (?D - {?r0})))"
      unfolding own' using True a b by simp
    ultimately show ?thesis by simp
  next
    case False
    have "dom (inner ?s') = ?D - {?r0}"
      using False by (simp add: dom_inner_onStatusUpdate)
    moreover have "mset (?own (shown (busySignal ?s'))) = image_mset ?g' (mset_set (?D - {?r0}))"
      unfolding own' using False a b by simp
    ultimately show ?thesis by simp
  qed
  have n': "n0 \<le> nextId (busySignal ?s')"
    using n0 by (simp add: nextId_onStatusUpdate)
  have fin': "finite (dom (inner ?s'))"
    using fin by (simp add: dom_inner_onStatusUpdate)
  have ge': "n0 \<le> d" if "inner ?s' r = Some d" for r d
    using that ge n0 by (auto simp: inner_onStatusUpdate split: if_splits)
  show ?thesis
    unfolding tracked_def using n' fin' ge' m by blast
qed

lemma run_tracked:
  assumes "\<forall>i \<in> fst ` set (shown b). i < nextId b"
  shows "tracked (nextId b) (serverStatusUpdatesToBusyMessages disp us b) \<and>
         dom (inner (serverStatusUpdatesToBusyMessages disp us b)) = activeRoots us \<and>
         filter (\<lambda>(i, _). i < nextId b)
           (shown (busySignal (serverStatusUpdatesToBusyMessages disp us b))) = shown b"
proof (induction us rule: rev_induct)
  case Nil
  have "filter (\<lambda>(i, _). nextId b \<le> i) (shown b) = []"
    using assms by (auto simp: filter_empty_conv)
  moreover have "filter (\<lambda>(i, _). i < nextId b) (shown b) = shown b"
    using assms by (auto simp: filter_id_conv)
  ultimately show ?case
    by (simp add: serverStatusUpdatesToBusyMessages_def subscribed_def tracked_def
        activeRoots_def)
next
  case (snoc u us)
  let ?s = "serverStatusUpdatesToBusyMessages disp us b"
  have step: "serverStatusUpdatesToBusyMessages disp (us @ [u]) b = onStatusUpdate disp ?s u"
    by (simp add: serverStatusUpdatesToBusyMessages_def)
  from run_invariant [OF assms, of disp us] have f: "fresh_ids ?s" by blast
  from snoc have t: "tracked (nextId b) ?s" and d: "dom (inner ?s) = activeRoots us"
    and o: "filter (\<lambda>(i, _). i < nextId b) (shown (busySignal ?s)) = shown b" by blast+
  from t have ge: "\<forall>r d. inner ?s r = Some d \<longrightarrow> nextId b \<le> d"
    and n: "nextId b \<le> nextId (busySignal ?s)" unfolding tracked_def by blast+
  show ?case
    unfolding step
    using tracked_onStatusUpdate [OF f t, of disp u] d o
      old_shown_onStatusUpdate [OF ge n, of disp u]
    by (simp add: dom_inner_onStatusUpdate activeRoots_snoc)
qed

lemma shown_titles:
  assumes "\<forall>i \<in> fst ` set (shown b). i < nextId b"
  shows "mset (map snd (filter (\<lambda>(i, _). nextId b \<le> i)
            (shown (busySignal (serverStatusUpdatesToBusyMessages disp us b))))) =
         image_mset
           (\<lambda>root. if lastStatus us root = Some ''init''
                    then ''Flow server is initializing ('' @ disp root @ '')''
                    else ''Flow server is busy ('' @ disp root @ '')'')
           (mset_set {root. lastStatus us root = Some ''init'' \<or> lastStatus us root = Some ''busy''})"
proof -
  let ?s = "serverStatusUpdatesToBusyMessages disp us b"
  let ?title = "\<lambda>root. if lastStatus us root = Some ''init''
                    then ''Flow server is initializing ('' @ disp root @ '')''
                    else ''Flow server is busy ('' @ disp root @ '')''"
  from run_tracked [OF assms, of disp us] have
    k: "mset (filter (\<lambda>(i, _). nextId b \<le> i) (shown (busySignal ?s))) =
          image_mset (\<lambda>r. (the (inner ?s r), the (messageFor ?s r))) (mset_set (dom (inner ?s)))"
    and d: "dom (inner ?s) = activeRoots us" and fin: "finite (dom (inner ?s))"
    unfolding tracked_def by blast+
  from run_invariant [OF assms, of disp us] have
    m: "\<And>root. messageFor ?s root =
        (case lastStatus us root of
           None \<Rightarrow> None
         | Some st \<Rightarrow>
             if st = ''init'' then Some (''Flow server is initializing ('' @ disp root @ '')'')
             else if st = ''busy'' then Some (''Flow server is busy ('' @ disp root @ '')'')
             else None)" by blast
  have "mset (map snd (filter (\<lambda>(i, _). nextId b \<le> i) (shown (busySignal ?s)))) =
        image_mset snd (mset (filter (\<lambda>(i, _). nextId b \<le> i) (shown (busySignal ?s))))"
    by simp
  also have "\<dots> = image_mset (\<lambda>r. the (messageFor ?s r)) (mset_set (activeRoots us))"
    unfolding k d by (simp add: multiset.map_comp comp_def)
  also have "\<dots> = image_mset ?title (mset_set (activeRoots us))"
  proof (rule image_mset_cong)
    fix r assume "r \<in># mset_set (activeRoots us)"
    then have "r \<in> activeRoots us" using fin d by simp
    then show "the (messageFor ?s r) = ?title r"
      unfolding m activeRoots_def by auto
  qed
  finally show ?thesis unfolding activeRoots_def .
qed

text \<open>
  C7: while the subscription consumes the updates, the message shown for a root is
  \<open>Flow server is initializing (path)\<close> or \<open>Flow server is busy (path)\<close> exactly
  when the most recent update of that root has the status \<open>init\<close> or \<open>busy\<close>, and
  there is none otherwise. This holds of what the service shows: the messages it had
  at the start are all still shown, and the others are exactly one message for each
  root whose most recent status is \<open>init\<close> or \<open>busy\<close>, with the text for that
  status. An update with any other status takes the message of its root, and nothing
  else, out of the messages shown, and makes no call of \<open>reportBusy\<close>: no number is
  handed out and no message is added.
\<close>

theorem busy_message_follows_status:
  assumes "\<forall>i \<in> fst ` set (shown b). i < nextId b"
  shows "messageFor (serverStatusUpdatesToBusyMessages disp us b) root =
           (case lastStatus us root of
              None \<Rightarrow> None
            | Some st \<Rightarrow>
                if st = ''init'' then Some (''Flow server is initializing ('' @ disp root @ '')'')
                else if st = ''busy'' then Some (''Flow server is busy ('' @ disp root @ '')'')
                else None) \<and>
         filter (\<lambda>(i, _). i < nextId b)
           (shown (busySignal (serverStatusUpdatesToBusyMessages disp us b))) = shown b \<and>
         mset (map snd (filter (\<lambda>(i, _). nextId b \<le> i)
            (shown (busySignal (serverStatusUpdatesToBusyMessages disp us b))))) =
           image_mset
             (\<lambda>root. if lastStatus us root = Some ''init''
                      then ''Flow server is initializing ('' @ disp root @ '')''
                      else ''Flow server is busy ('' @ disp root @ '')'')
             (mset_set {root. lastStatus us root = Some ''init'' \<or>
                              lastStatus us root = Some ''busy''}) \<and>
         (status u \<noteq> ''init'' \<and> status u \<noteq> ''busy'' \<longrightarrow>
            (let s = serverStatusUpdatesToBusyMessages disp us b;
                 s' = onStatusUpdate disp s u
             in s' = serverStatusUpdatesToBusyMessages disp (us @ [u]) b \<and>
                messageFor s' (pathToRoot u) = None \<and>
                nextId (busySignal s') = nextId (busySignal s) \<and>
                set (shown (busySignal s')) \<subseteq> set (shown (busySignal s)) \<and>
                shown (busySignal s') =
                  filter (\<lambda>(i, _). Some i \<noteq> inner s (pathToRoot u)) (shown (busySignal s))))"
proof -
  let ?s = "serverStatusUpdatesToBusyMessages disp us b"
  have step: "serverStatusUpdatesToBusyMessages disp (us @ [u]) b = onStatusUpdate disp ?s u"
    by (simp add: serverStatusUpdatesToBusyMessages_def)
  have none: "messageFor (onStatusUpdate disp ?s u) (pathToRoot u) = None"
    if "status u \<noteq> ''init''" "status u \<noteq> ''busy''"
    using that other_status [OF that, of disp ?s] by (simp add: messageFor_def)
  have sh: "shown (busySignal (onStatusUpdate disp ?s u)) =
      filter (\<lambda>(i, _). Some i \<noteq> inner ?s (pathToRoot u)) (shown (busySignal ?s))"
    if "status u \<noteq> ''init''" "status u \<noteq> ''busy''"
    using that by (simp add: shown_onStatusUpdate)
  have last: "status u \<noteq> ''init'' \<and> status u \<noteq> ''busy'' \<longrightarrow>
            (let s = serverStatusUpdatesToBusyMessages disp us b;
                 s' = onStatusUpdate disp s u
             in s' = serverStatusUpdatesToBusyMessages disp (us @ [u]) b \<and>
                messageFor s' (pathToRoot u) = None \<and>
                nextId (busySignal s') = nextId (busySignal s) \<and>
                set (shown (busySignal s')) \<subseteq> set (shown (busySignal s)) \<and>
                shown (busySignal s') =
                  filter (\<lambda>(i, _). Some i \<noteq> inner s (pathToRoot u)) (shown (busySignal s)))"
    unfolding Let_def using none sh other_status [of u disp ?s] step by metis
  from run_invariant [OF assms, of disp us] have first:
    "messageFor ?s root =
           (case lastStatus us root of
              None \<Rightarrow> None
            | Some st \<Rightarrow>
                if st = ''init'' then Some (''Flow server is initializing ('' @ disp root @ '')'')
                else if st = ''busy'' then Some (''Flow server is busy ('' @ disp root @ '')'')
                else None)" by blast
  from run_tracked [OF assms, of disp us] have old:
    "filter (\<lambda>(i, _). i < nextId b) (shown (busySignal ?s)) = shown b" by blast
  show ?thesis
    using first old shown_titles [OF assms, of disp us] last by (intro conjI)
qed

theorem busy_message_follows_status_witness:
  "messageFor (serverStatusUpdatesToBusyMessages id
       [\<lparr>pathToRoot = ''/r'', status = ''init''\<rparr>, \<lparr>pathToRoot = ''/q'', status = ''busy''\<rparr>,
        \<lparr>pathToRoot = ''/r'', status = ''ready''\<rparr>, \<lparr>pathToRoot = ''/p'', status = ''init''\<rparr>]
       \<lparr>nextId = 1, shown = [(0, ''Indexing'')]\<rparr>) ''/q'' = Some ''Flow server is busy (/q)'' \<and>
   messageFor (serverStatusUpdatesToBusyMessages id
       ([\<lparr>pathToRoot = ''/r'', status = ''init''\<rparr>, \<lparr>pathToRoot = ''/q'', status = ''busy''\<rparr>,
         \<lparr>pathToRoot = ''/r'', status = ''ready''\<rparr>, \<lparr>pathToRoot = ''/p'', status = ''init''\<rparr>]
        @ [\<lparr>pathToRoot = ''/p'', status = ''failed''\<rparr>])
       \<lparr>nextId = 1, shown = [(0, ''Indexing'')]\<rparr>) ''/p'' = None \<and>
   filter (\<lambda>(i, _). i < 1) (shown (busySignal (serverStatusUpdatesToBusyMessages id
       [\<lparr>pathToRoot = ''/r'', status = ''init''\<rparr>, \<lparr>pathToRoot = ''/q'', status = ''busy''\<rparr>,
        \<lparr>pathToRoot = ''/r'', status = ''ready''\<rparr>, \<lparr>pathToRoot = ''/p'', status = ''init''\<rparr>]
       \<lparr>nextId = 1, shown = [(0, ''Indexing'')]\<rparr>))) = [(0, ''Indexing'')] \<and>
   shown (busySignal (serverStatusUpdatesToBusyMessages id
       ([\<lparr>pathToRoot = ''/r'', status = ''init''\<rparr>, \<lparr>pathToRoot = ''/q'', status = ''busy''\<rparr>,
         \<lparr>pathToRoot = ''/r'', status = ''ready''\<rparr>, \<lparr>pathToRoot = ''/p'', status = ''init''\<rparr>]
        @ [\<lparr>pathToRoot = ''/p'', status = ''failed''\<rparr>])
       \<lparr>nextId = 1, shown = [(0, ''Indexing'')]\<rparr>)) =
     [(0, ''Indexing''), (2, ''Flow server is busy (/q)'')]"
proof -
  let ?b = "\<lparr>nextId = 1, shown = [(0, ''Indexing'')]\<rparr>"
  let ?us = "[\<lparr>pathToRoot = ''/r'', status = ''init''\<rparr>, \<lparr>pathToRoot = ''/q'', status = ''busy''\<rparr>,
        \<lparr>pathToRoot = ''/r'', status = ''ready''\<rparr>, \<lparr>pathToRoot = ''/p'', status = ''init''\<rparr>]"
  let ?u = "\<lparr>pathToRoot = ''/p'', status = ''failed''\<rparr>"
  have b: "\<forall>i \<in> fst ` set (shown ?b). i < nextId ?b" by simp
  note t = busy_message_follows_status [OF b, of id ?us "''/q''" ?u]
  have u: "status ?u \<noteq> ''init'' \<and> status ?u \<noteq> ''busy''" by simp
  from t [THEN conjunct1]
  have 1: "messageFor (serverStatusUpdatesToBusyMessages id ?us ?b) ''/q'' =
      Some ''Flow server is busy (/q)''" by simp
  have 2: "messageFor (serverStatusUpdatesToBusyMessages id (?us @ [?u]) ?b) ''/p'' = None"
  proof -
    note c = t [THEN conjunct2, THEN conjunct2, THEN conjunct2, THEN mp, OF u, unfolded Let_def]
    note e = c [THEN conjunct1]
    note m = c [THEN conjunct2, THEN conjunct1]
    have p: "pathToRoot ?u = ''/p''" by simp
    show ?thesis using m unfolding e p .
  qed
  from t [THEN conjunct2, THEN conjunct1]
  have 3: "filter (\<lambda>(i, _). i < 1) (shown (busySignal (serverStatusUpdatesToBusyMessages id ?us ?b))) =
      [(0, ''Indexing'')]" by simp
  have 4: "shown (busySignal (serverStatusUpdatesToBusyMessages id (?us @ [?u]) ?b)) =
      [(0, ''Indexing''), (2, ''Flow server is busy (/q)'')]"
    by code_simp
  from 1 2 3 4 show ?thesis by (intro conjI)
qed

section \<open>Properties of the Mercurial service\<close>

text \<open>
  C3: \<open>fetchMergeConflicts\<close> gives each parsed conflict its status from the
  existence flags: a conflict whose base, local and other side all exist is
  \<open>BOTH_CHANGED\<close>, and one whose local side does not exist is \<open>DELETED_IN_OURS\<close>.
\<close>

theorem fetchMergeConflicts_status:
  assumes "i < length conflicts"
  shows "(exists_flag (base (conflicts ! i)) \<and> exists_flag (local_side (conflicts ! i)) \<and>
          exists_flag (other (conflicts ! i)) \<longrightarrow>
            snd (fetchMergeConflicts conflicts ! i) = BOTH_CHANGED) \<and>
         (\<not> exists_flag (local_side (conflicts ! i)) \<longrightarrow>
            snd (fetchMergeConflicts conflicts ! i) = DELETED_IN_OURS)"
  using assms by (simp add: fetchMergeConflicts_def conflictStatus_def)

theorem fetchMergeConflicts_status_witness:
  "length (fetchMergeConflicts mockOutput) = 2 \<and>
   snd (fetchMergeConflicts mockOutput ! 0) = BOTH_CHANGED \<and>
   snd (fetchMergeConflicts mockOutput ! 1) = DELETED_IN_OURS"
  using fetchMergeConflicts_status [of 0 mockOutput] fetchMergeConflicts_status [of 1 mockOutput]
  by (simp add: mockOutput_def fetchMergeConflicts_def)

text \<open>
  C6: when the run of \<open>hg\<close> throws, \<open>getConfigValueAsync\<close> resolves to \<open>null\<close>;
  the error does not reach the caller.
\<close>

theorem getConfigValueAsync_null_on_error:
  assumes "hgAsyncExecute [''config'', key] workingDirectory = Inl e"
  shows "getConfigValueAsync hgAsyncExecute workingDirectory key = Inr None"
  using assms by (simp add: getConfigValueAsync_def)

theorem getConfigValueAsync_null_on_error_witness:
  "getConfigValueAsync (\<lambda>args dir. Inl ''Something failed'') ''/Test/Working/Directory/''
     ''non.existent.config'' = Inr None"
  using getConfigValueAsync_null_on_error [of "\<lambda>args dir. Inl ''Something failed''"
      "''non.existent.config''" "''/Test/Working/Directory/''" "''Something failed''"]
  by simp

end
